theory Spec2Isabelle
  imports Complex_Main "HOL-Library.AList" "HOL-Library.FSet"
begin

section \<open>Data model\<close>

text \<open>
  A process record is a Python dict from field names to values. The values that occur are
  integers (pid, memory in KB), floats (CPU percentage), strings (name, status, user) and
  \<open>None\<close>. Floats are carried as reals; the only arithmetic on them is the clock
  difference of the cache, where the clock reading is a parameter of the model.
\<close>

datatype val = VInt int | VFloat real | VStr string | VNone

type_synonym proc = "string \<rightharpoonup> val"

text \<open>The exceptions the code can meet; \<open>OtherException\<close> stands for every other class.\<close>

datatype exn = KeyError | AttributeError | NoSuchProcess | AccessDenied | OtherException

subsection \<open>ProcessCache\<close>

text \<open>
  \<open>_cache\<close> is an \<open>OrderedDict\<close>: an association list in insertion order with distinct
  keys. \<open>d[k] = v\<close> is \<open>AList.update k v d\<close> (replace in place, or append),
  \<open>k in d\<close> is \<open>k \<in> fst ` set d\<close> and \<open>d[k]\<close> is \<open>map_of d k\<close>.
  Keys are compared as values of \<open>val\<close>. The identities that reach the cache are
  integers (the enumeration yields integers and \<open>psutil.Process\<close> rejects anything
  else), so that Python's equality of \<open>1\<close> and \<open>1.0\<close> plays no part.

  The cache stores the very dict objects of the list it is given, and the manager keeps
  that list. A quick refresh therefore also changes the dynamic fields of the cached
  records. \<open>ProcessCache\<close> holds its records by value; the manager records which
  object of its list each entry is (\<open>cache_refs\<close> below) and rewrites the entries
  when it mutates the list.
\<close>

record ProcessCache =
  cache_od :: "(val \<times> proc) list"
  max_size :: int
  last_update :: real

definition static_fields :: "string list" where
  "static_fields = [''pid'', ''name'', ''username'', ''exe'', ''cwd'', ''create_time'']"

definition dynamic_fields :: "string list" where
  "dynamic_fields = [''memory_kb'', ''cpu_percent'', ''status'', ''num_threads'']"

definition ProcessCache_init :: "int \<Rightarrow> ProcessCache" where
  "ProcessCache_init m = \<lparr>cache_od = [], max_size = m, last_update = 0\<rparr>"

text \<open>Lines 33-35: every static field the cached record holds overwrites the observed one.\<close>

definition copy_static :: "proc \<Rightarrow> proc \<Rightarrow> proc" where
  "copy_static cached proc =
     fold (\<lambda>field p. if cached field \<noteq> None then p(field := cached field) else p)
       static_fields proc"

text \<open>Lines 31-35: what the loop body makes of one record whose identity is \<open>pid\<close>.\<close>

definition merge_record :: "ProcessCache \<Rightarrow> real \<Rightarrow> val \<Rightarrow> proc \<Rightarrow> proc" where
  "merge_record c current_time pid proc =
     (if pid \<in> fst ` set (cache_od c) \<and> current_time - last_update c < 2.0
      then copy_static (the (map_of (cache_od c) pid)) proc
      else proc)"

text \<open>
  Lines 28-39. The result is the new generation and the list as the caller sees it
  afterwards: the visited records are mutated in place, the records after the
  \<open>break\<close> are not touched (nor read). A visited record without a \<open>'pid'\<close> key
  raises KeyError, and the cache stays as it was. The set \<open>_static_fields\<close> is
  traversed as a list; the fields are distinct, so the order does not matter.
\<close>

fun update_loop ::
  "ProcessCache \<Rightarrow> real \<Rightarrow> (val \<times> proc) list \<Rightarrow> proc list \<Rightarrow> exn + ((val \<times> proc) list \<times> proc list)"
where
  "update_loop c current_time new_cache [] = Inr (new_cache, [])"
| "update_loop c current_time new_cache (proc # rest) =
     (case proc ''pid'' of
        None \<Rightarrow> Inl KeyError
      | Some pid \<Rightarrow>
          (let proc' = merge_record c current_time pid proc;
               new_cache' = AList.update pid proc' new_cache
           in if int (length new_cache') \<ge> max_size c
              then Inr (new_cache', proc' # rest)
              else (case update_loop c current_time new_cache' rest of
                      Inl e \<Rightarrow> Inl e
                    | Inr (nc, out) \<Rightarrow> Inr (nc, proc' # out))))"

definition ProcessCache_update ::
  "ProcessCache \<Rightarrow> real \<Rightarrow> proc list \<Rightarrow> exn + (ProcessCache \<times> proc list)"
where
  "ProcessCache_update c current_time processes =
     (case update_loop c current_time [] processes of
        Inl e \<Rightarrow> Inl e
      | Inr (new_cache, out) \<Rightarrow>
          Inr (c\<lparr>cache_od := new_cache, last_update := current_time\<rparr>, out))"

text \<open>Lines 45-53; \<open>now\<close> is the reading of \<open>time.time()\<close>.\<close>

definition needs_full_update :: "ProcessCache \<Rightarrow> real \<Rightarrow> val fset \<Rightarrow> bool" where
  "needs_full_update c now current_pids =
     (let cached_pids = fset_of_list (map fst (cache_od c));
          new_pids = current_pids |-| cached_pids;
          gone_pids = cached_pids |-| current_pids
      in if fcard new_pids > 5 \<or> fcard gone_pids > 5 then True
         else now - last_update c > 5.0)"

text \<open>The rule of the refresh policy as the specification words it.\<close>

definition needsFullUpdate :: "val fset \<Rightarrow> val fset \<Rightarrow> real \<Rightarrow> real \<Rightarrow> bool" where
  "needsFullUpdate cachedIdentities currentIdentities now lastFullUpdate =
     (let appeared = currentIdentities |-| cachedIdentities;
          vanished = cachedIdentities |-| currentIdentities
      in fcard appeared > 5 \<or> fcard vanished > 5 \<or> now - lastFullUpdate > 5.0)"

text \<open>
  The identity of a record, and the identities of a sequence in order of first appearance
  (\<open>uniq_from seen xs\<close> appends to \<open>seen\<close> every element of \<open>xs\<close> not met before).
\<close>

definition ident :: "proc \<Rightarrow> val option" where
  "ident p = p ''pid''"

primrec uniq_from :: "'a list \<Rightarrow> 'a list \<Rightarrow> 'a list" where
  "uniq_from seen [] = seen"
| "uniq_from seen (x # xs) = uniq_from (if x \<in> set seen then seen else seen @ [x]) xs"

text \<open>
  The representation invariant of a generation: keys are distinct, and every record is
  stored under its own identity. It holds initially and \<open>update\<close> keeps it.
\<close>

definition cache_wf :: "ProcessCache \<Rightarrow> bool" where
  "cache_wf c =
     (distinct (map fst (cache_od c)) \<and> list_all (\<lambda>(k, r). r ''pid'' = Some k) (cache_od c))"

subsection \<open>The backends\<close>

text \<open>
  The introspection backend (psutil) as one call of the manager sees it. Every query
  either raises or answers. \<open>Process\<close> is the constructor \<open>psutil.Process(pid)\<close>
  for an integer pid (\<open>None\<close>: no exception); \<open>process_iter\<close> is the enumeration with the six requested
  attributes, where psutil puts \<open>None\<close> for an attribute it was denied.
  \<open>time_time h n\<close> is the \<open>n\<close>-th reading of the clock during the call and
  \<open>getpid\<close> the pid of the program itself.
\<close>

record pinfo =
  info_pid :: int
  info_name :: "string option"
  info_memory_info :: "int option"
  info_cpu_percent :: "real option"
  info_status :: "string option"
  info_username :: "string option"

record host =
  Process :: "int \<Rightarrow> exn option"
  cpu_percent :: "int \<Rightarrow> exn + real"
  status :: "int \<Rightarrow> exn + string"
  username :: "int \<Rightarrow> exn + string"
  memory_info_rss :: "int \<Rightarrow> exn + int"
  terminate :: "int \<Rightarrow> exn option"
  process_iter :: "pinfo list"
  time_time :: "nat \<Rightarrow> real"
  getpid :: int

text \<open>
  \<open>psutil.Process(pid)\<close>: the pid of the process object made, or the exception raised.
  \<open>None\<close> stands for the calling process (\<open>os.getpid()\<close>); a value that is not an
  integer raises TypeError.
\<close>

definition psutil_Process :: "host \<Rightarrow> val \<Rightarrow> exn + int" where
  "psutil_Process h pid =
     (case pid of
        VInt i \<Rightarrow> (case Process h i of Some e \<Rightarrow> Inl e | None \<Rightarrow> Inr i)
      | VNone \<Rightarrow> (case Process h (getpid h) of Some e \<Rightarrow> Inl e | None \<Rightarrow> Inr (getpid h))
      | _ \<Rightarrow> Inl OtherException)"

text \<open>
  The bulk backend (the DLL). A call of \<open>GetProcessesInfo\<close> followed by decoding either
  raises (the call, the decoding or the JSON parser), returns nothing, or yields a JSON
  array of objects. The world holds the reply to each call and counts the calls made.
\<close>

datatype dll_reply = DllRaises | DllNull | DllJson "proc list"

record world =
  dll_replies :: "nat \<Rightarrow> dll_reply"
  dll_calls :: nat

subsection \<open>ProcessManager\<close>

record ProcessManager =
  processes :: "proc list"
  cache :: ProcessCache
  last_full_update :: real
  dll :: bool
  cache_refs :: "nat list option"

text \<open>
  The cache stores the very dict objects of the list it was given (line 37), and that
  list becomes \<open>self.processes\<close>. \<open>cache_refs\<close> records this sharing: for each entry
  of the cache, in order, the position in \<open>processes\<close> of the object it holds;
  \<open>None\<close> when the cached objects are not those of the current list (after a full
  refresh that raised before the cache was replaced).

  Lines 56-75; \<open>loaded\<close> says whether \<open>ctypes.WinDLL\<close> succeeded.
\<close>

definition ProcessManager_init :: "bool \<Rightarrow> ProcessManager" where
  "ProcessManager_init loaded =
     \<lparr>processes = [], cache = ProcessCache_init 500, last_full_update = 0, dll = loaded,
      cache_refs = Some []\<rparr>"

text \<open>Lines 77-93.\<close>

definition get_processes_from_dll :: "ProcessManager \<Rightarrow> world \<Rightarrow> world \<times> proc list" where
  "get_processes_from_dll m w =
     (if \<not> dll m then (w, [])
      else (let w' = w\<lparr>dll_calls := Suc (dll_calls w)\<rparr>
            in case dll_replies w (dll_calls w) of
                 DllRaises \<Rightarrow> (w', [])
               | DllNull \<Rightarrow> (w', [])
               | DllJson decoded \<Rightarrow> (w', decoded)))"

text \<open>Lines 115-120: the dict handed to \<open>new_proc.update\<close>, or the exception raised.\<close>

definition enrich :: "host \<Rightarrow> val \<Rightarrow> exn + proc" where
  "enrich h pid =
     (case psutil_Process h pid of
        Inl e \<Rightarrow> Inl e
      | Inr i \<Rightarrow>
          (case cpu_percent h i of
             Inl e \<Rightarrow> Inl e
           | Inr cpu \<Rightarrow>
               (case status h i of
                  Inl e \<Rightarrow> Inl e
                | Inr st \<Rightarrow>
                    (case username h i of
                       Inl e \<Rightarrow> Inl e
                     | Inr u \<Rightarrow>
                         Inr [''cpu_percent'' \<mapsto> VFloat cpu,
                              ''status'' \<mapsto> VStr st,
                              ''username'' \<mapsto> VStr (if u = [] then ''N/A'' else u)]))))"

text \<open>Lines 104-111: the record of an entry before its enrichment.\<close>

definition bulk_defaults :: "val \<Rightarrow> val \<Rightarrow> val \<Rightarrow> proc" where
  "bulk_defaults pid name memory_kb =
     [''pid'' \<mapsto> pid, ''name'' \<mapsto> name, ''memory_kb'' \<mapsto> memory_kb,
      ''cpu_percent'' \<mapsto> VFloat 0.0, ''status'' \<mapsto> VStr ''running'',
      ''username'' \<mapsto> VStr ''N/A'']"

text \<open>
  Lines 103-127, one iteration: \<open>Inr\<close> is the record appended, \<open>Inl\<close> the exception
  the outer handler prints before it continues with the next entry.
\<close>

definition dll_record :: "host \<Rightarrow> proc \<Rightarrow> exn + proc" where
  "dll_record h proc =
     (case proc ''pid'' of
        None \<Rightarrow> Inl KeyError
      | Some pid \<Rightarrow>
          (case proc ''name'' of
             None \<Rightarrow> Inl KeyError
           | Some name \<Rightarrow>
               (case proc ''memory_kb'' of
                  None \<Rightarrow> Inl KeyError
                | Some memory_kb \<Rightarrow>
                    (let new_proc = bulk_defaults pid name memory_kb
                     in case enrich h pid of
                          Inr d \<Rightarrow> Inr (new_proc ++ d)
                        | Inl NoSuchProcess \<Rightarrow> Inr new_proc
                        | Inl AccessDenied \<Rightarrow> Inr new_proc
                        | Inl e \<Rightarrow> Inl e))))"

fun dll_records :: "host \<Rightarrow> proc list \<Rightarrow> proc list" where
  "dll_records h [] = []"
| "dll_records h (proc # rest) =
     (case dll_record h proc of
        Inl e \<Rightarrow> dll_records h rest
      | Inr new_proc \<Rightarrow> new_proc # dll_records h rest)"

text \<open>
  Lines 145-152, one iteration of the introspection-only enumeration. Reading \<open>.rss\<close>
  of a \<open>None\<close> memory_info raises AttributeError; nothing else in the body can raise.
\<close>

definition psutil_record :: "pinfo \<Rightarrow> exn + proc" where
  "psutil_record i =
     (case info_memory_info i of
        None \<Rightarrow> Inl AttributeError
      | Some rss \<Rightarrow>
          Inr [''pid'' \<mapsto> VInt (info_pid i),
               ''name'' \<mapsto> (case info_name i of Some n \<Rightarrow> VStr n | None \<Rightarrow> VNone),
               ''memory_kb'' \<mapsto> VInt (rss div 1024),
               ''cpu_percent'' \<mapsto> (case info_cpu_percent i of Some x \<Rightarrow> VFloat x | None \<Rightarrow> VNone),
               ''status'' \<mapsto> (case info_status i of Some s \<Rightarrow> VStr s | None \<Rightarrow> VNone),
               ''username'' \<mapsto>
                 VStr (case info_username i of
                         Some u \<Rightarrow> if u = [] then ''N/A'' else u
                       | None \<Rightarrow> ''N/A'')])"

text \<open>
  Lines 142-154: the list built, and the exception that ended the loop early if one
  did (the handler catches NoSuchProcess and AccessDenied only).
\<close>

fun psutil_records :: "pinfo list \<Rightarrow> proc list \<times> exn option" where
  "psutil_records [] = ([], None)"
| "psutil_records (i # rest) =
     (case psutil_record i of
        Inr r \<Rightarrow> (let (rs, e) = psutil_records rest in (r # rs, e))
      | Inl NoSuchProcess \<Rightarrow> psutil_records rest
      | Inl AccessDenied \<Rightarrow> psutil_records rest
      | Inl e \<Rightarrow> ([], Some e))"

text \<open>Lines 166-171: the dict handed to \<open>proc.update\<close>, or the exception raised.\<close>

definition dynamic_data :: "host \<Rightarrow> proc \<Rightarrow> exn + proc" where
  "dynamic_data h proc =
     (case proc ''pid'' of
        None \<Rightarrow> Inl KeyError
      | Some pid \<Rightarrow>
          (case psutil_Process h pid of
             Inl e \<Rightarrow> Inl e
           | Inr i \<Rightarrow>
               (case memory_info_rss h i of
                  Inl e \<Rightarrow> Inl e
                | Inr rss \<Rightarrow>
                    (case cpu_percent h i of
                       Inl e \<Rightarrow> Inl e
                     | Inr cpu \<Rightarrow>
                         (case status h i of
                            Inl e \<Rightarrow> Inl e
                          | Inr st \<Rightarrow>
                              Inr [''memory_kb'' \<mapsto> VInt (rss div 1024),
                                   ''cpu_percent'' \<mapsto> VFloat cpu,
                                   ''status'' \<mapsto> VStr st])))))"

text \<open>
  Lines 163-173: the list afterwards, and the exception that escaped if one did.
  NoSuchProcess and AccessDenied are caught and the record is left as it is.
\<close>

fun refresh_dynamic_data :: "host \<Rightarrow> proc list \<Rightarrow> proc list \<times> exn option" where
  "refresh_dynamic_data h [] = ([], None)"
| "refresh_dynamic_data h (proc # rest) =
     (case dynamic_data h proc of
        Inr d \<Rightarrow> (let (rest', e) = refresh_dynamic_data h rest in ((proc ++ d) # rest', e))
      | Inl NoSuchProcess \<Rightarrow> (let (rest', e) = refresh_dynamic_data h rest in (proc # rest', e))
      | Inl AccessDenied \<Rightarrow> (let (rest', e) = refresh_dynamic_data h rest in (proc # rest', e))
      | Inl e \<Rightarrow> (proc # rest, Some e))"

text \<open>
  Line 37 stores the dict object itself. \<open>cache_positions\<close> follows the loop of
  \<open>update\<close> (lines 28-39) and gives, for each key of the new generation in order, the
  position in the list of the object stored under it.
\<close>

fun cache_positions :: "int \<Rightarrow> (val \<times> nat) list \<Rightarrow> nat \<Rightarrow> proc list \<Rightarrow> (val \<times> nat) list" where
  "cache_positions ms refs i [] = refs"
| "cache_positions ms refs i (proc # rest) =
     (case proc ''pid'' of
        None \<Rightarrow> refs
      | Some pid \<Rightarrow>
          (let refs' = AList.update pid i refs
           in if int (length refs') \<ge> ms then refs'
              else cache_positions ms refs' (Suc i) rest))"

text \<open>
  What the cache holds once the objects of the list have been mutated in place: every
  entry shows the present state of the object at its position.
\<close>

fun sync_entries :: "(val \<times> proc) list \<Rightarrow> nat list \<Rightarrow> proc list \<Rightarrow> (val \<times> proc) list" where
  "sync_entries [] refs ps = []"
| "sync_entries (e # es) [] ps = e # es"
| "sync_entries (e # es) (j # refs) ps =
     (fst e, if j < length ps then ps ! j else snd e) # sync_entries es refs ps"

definition sync_cache :: "ProcessCache \<Rightarrow> nat list option \<Rightarrow> proc list \<Rightarrow> ProcessCache" where
  "sync_cache c refs ps =
     (case refs of
        None \<Rightarrow> c
      | Some js \<Rightarrow> c\<lparr>cache_od := sync_entries (cache_od c) js ps\<rparr>)"

text \<open>Lines 129-134 and 156-161: the built list goes through the cache.\<close>

definition finish_full ::
  "host \<Rightarrow> world \<Rightarrow> ProcessManager \<Rightarrow> proc list \<Rightarrow> (ProcessManager \<times> world) \<times> (exn + proc list)"
where
  "finish_full h w m built =
     (case ProcessCache_update (cache m) (time_time h 0) built of
        Inl e \<Rightarrow> ((m\<lparr>processes := built, cache_refs := None\<rparr>, w), Inl e)
      | Inr (c', out) \<Rightarrow>
          ((m\<lparr>processes := out, cache := c', last_full_update := time_time h 1,
              cache_refs := Some (map snd (cache_positions (max_size (cache m)) [] 0 built))\<rparr>,
            w),
           Inr out))"

text \<open>
  Lines 136-161: the quick refresh, or the introspection-only full refresh. The quick
  refresh mutates the held dicts in place, so the cached records that are those objects
  change with them.
\<close>

definition get_processes_psutil ::
  "host \<Rightarrow> world \<Rightarrow> ProcessManager \<Rightarrow> bool \<Rightarrow> (ProcessManager \<times> world) \<times> (exn + proc list)"
where
  "get_processes_psutil h w m full_update =
     (if \<not> full_update
      then (let (ps', e) = refresh_dynamic_data h (processes m)
            in ((m\<lparr>processes := ps', cache := sync_cache (cache m) (cache_refs m) ps'\<rparr>, w),
                case e of None \<Rightarrow> Inr ps' | Some x \<Rightarrow> Inl x))
      else (case psutil_records (process_iter h) of
              (built, Some e) \<Rightarrow> ((m\<lparr>processes := built, cache_refs := None\<rparr>, w), Inl e)
            | (built, None) \<Rightarrow> finish_full h w m built))"

text \<open>
  Lines 95-161. The result is the manager and the world afterwards, and the list
  returned or the exception that escaped.
\<close>

definition get_processes ::
  "host \<Rightarrow> world \<Rightarrow> ProcessManager \<Rightarrow> bool \<Rightarrow> (ProcessManager \<times> world) \<times> (exn + proc list)"
where
  "get_processes h w m full_update =
     (if dll m \<and> full_update
      then (let (w', dll_processes) = get_processes_from_dll m w
            in if dll_processes \<noteq> []
               then finish_full h w' m (dll_records h dll_processes)
               else get_processes_psutil h w' m full_update)
      else get_processes_psutil h w m full_update)"

text \<open>A run of the manager: a sequence of calls, each with its host and its flag.\<close>

fun run :: "(host \<times> bool) list \<Rightarrow> ProcessManager \<times> world \<Rightarrow> ProcessManager \<times> world" where
  "run [] s = s"
| "run ((h, full_update) # calls) (m, w) = run calls (fst (get_processes h w m full_update))"

text \<open>
  Lines 175-182. The effects are the requests sent to a process and the error dialog;
  \<open>ShowError e\<close> is the dialog whose message ends with the text of \<open>e\<close>. The last
  component is what the calling code receives: a value, or an exception.
\<close>

datatype effect = is_Terminate: Terminate int | is_Kill: Kill int | is_ShowError: ShowError exn

definition kill_process ::
  "host \<Rightarrow> ProcessManager \<Rightarrow> val \<Rightarrow> (ProcessManager \<times> effect list) \<times> (exn + bool)"
where
  "kill_process h m pid =
     (case psutil_Process h pid of
        Inl e \<Rightarrow> ((m, [ShowError e]), Inr False)
      | Inr i \<Rightarrow>
          (case terminate h i of
             None \<Rightarrow> ((m, [Terminate i]), Inr True)
           | Some e \<Rightarrow> ((m, [Terminate i, ShowError e]), Inr False)))"

text \<open>
  The outcome of asking the introspection backend to terminate an identity, as the
  specification words it: \<open>None\<close> when the request succeeds, otherwise its cause.
\<close>

definition termination_request :: "host \<Rightarrow> val \<Rightarrow> exn option" where
  "termination_request h pid =
     (case psutil_Process h pid of
        Inl e \<Rightarrow> Some e
      | Inr i \<Rightarrow> terminate h i)"

text \<open>
  The keys of the records the manager builds, on either path, and the invariant that the
  cache holds no other key. It holds initially and every refresh keeps it.
\<close>

definition manager_fields :: "string list" where
  "manager_fields = [''pid'', ''name'', ''memory_kb'', ''cpu_percent'', ''status'', ''username'']"

definition cache_basic :: "ProcessCache \<Rightarrow> bool" where
  "cache_basic c = list_all (\<lambda>e. dom (snd e) \<subseteq> set manager_fields) (cache_od c)"

text \<open>
  The invariant behind \<open>cache_refs\<close>: every cached record is the record of the list at
  the position recorded for it. It holds initially and every refresh keeps it.
\<close>

definition refs_ok :: "ProcessManager \<Rightarrow> bool" where
  "refs_ok m =
     (case cache_refs m of
        None \<Rightarrow> True
      | Some js \<Rightarrow>
          list_all2 (\<lambda>e j. j < length (processes m) \<and> snd e = processes m ! j)
            (cache_od (cache m)) js)"

subsection \<open>Concrete records used in the examples\<close>

definition ex_rec :: "int \<Rightarrow> string \<Rightarrow> proc" where
  "ex_rec i n = [''pid'' \<mapsto> VInt i, ''name'' \<mapsto> VStr n]"

definition ex_cache3 :: ProcessCache where
  "ex_cache3 = \<lparr>cache_od = [(VInt 1, ex_rec 1 ''a''), (VInt 2, ex_rec 2 ''b''), (VInt 3, ex_rec 3 ''c'')],
                max_size = 500, last_update = 100\<rparr>"

definition ex_prior :: "int \<Rightarrow> ProcessCache" where
  "ex_prior m = \<lparr>cache_od = [(VInt 42, ex_rec 42 ''alpha'')], max_size = m, last_update = 100\<rparr>"

definition ex_host :: host where
  "ex_host =
     \<lparr>Process = (\<lambda>i. if i = 7 \<or> i = 8 then None else Some NoSuchProcess),
      cpu_percent = (\<lambda>i. Inr 1.5),
      status = (\<lambda>i. Inr ''sleeping''),
      username = (\<lambda>i. Inr ''root''),
      memory_info_rss = (\<lambda>i. Inr 4096),
      terminate = (\<lambda>i. if i = 7 then None else Some AccessDenied),
      process_iter =
        [\<lparr>info_pid = 7, info_name = Some ''init'', info_memory_info = Some 2048,
          info_cpu_percent = Some 0.5, info_status = Some ''running'',
          info_username = Some ''root''\<rparr>],
      time_time = (\<lambda>n. 10),
      getpid = 1\<rparr>"

definition ex_world :: world where
  "ex_world =
     \<lparr>dll_replies =
        (\<lambda>n. if n = 0 then DllRaises
             else DllJson [[''pid'' \<mapsto> VInt 7, ''name'' \<mapsto> VStr ''init'', ''memory_kb'' \<mapsto> VInt 2]]),
      dll_calls = 0\<rparr>"

definition ex_built :: proc where
  "ex_built = [''pid'' \<mapsto> VInt 7, ''name'' \<mapsto> VStr ''init'', ''memory_kb'' \<mapsto> VInt 2,
               ''cpu_percent'' \<mapsto> VFloat 0.5, ''status'' \<mapsto> VStr ''running'',
               ''username'' \<mapsto> VStr ''root'']"

definition ex_held :: proc where
  "ex_held = ex_built(''exe'' \<mapsto> VStr ''/usr/bin/foo'')"

definition ex_manager :: ProcessManager where
  "ex_manager = \<lparr>processes = [ex_held], cache = ProcessCache_init 500,
                  last_full_update = 0, dll = False, cache_refs = Some []\<rparr>"





section \<open>Properties of the cache\<close>

subsection \<open>The update loop\<close>

lemma ex_rec_pid: "ex_rec i n ''pid'' = Some (VInt i)"
  by (simp add: ex_rec_def)

lemma ex_rec_name: "ex_rec i n ''name'' = Some (VStr n)"
  by (simp add: ex_rec_def)

lemma length_update:
  "length (AList.update k v al) = (if k \<in> fst ` set al then length al else Suc (length al))"
  by (induction al) auto

lemma loop_len:
  "update_loop c t nc ps = Inr (nc', out) \<Longrightarrow> int (length nc) < max_size c
     \<Longrightarrow> int (length nc') \<le> max_size c"
proof (induction ps arbitrary: nc nc' out)
  case Nil
  then show ?case by simp
next
  case (Cons p ps)
  from Cons.prems(1) obtain k where k: "p ''pid'' = Some k"
    by (cases "p ''pid''") auto
  define nc1 where "nc1 = AList.update k (merge_record c t k p) nc"
  have le: "length nc1 \<le> Suc (length nc)"
    by (simp add: nc1_def length_update)
  show ?case
  proof (cases "int (length nc1) \<ge> max_size c")
    case True
    with Cons.prems(1) k have "nc' = nc1"
      by (simp add: Let_def nc1_def)
    with le Cons.prems(2) show ?thesis by simp
  next
    case False
    with Cons.prems(1) k obtain out' where "update_loop c t nc1 ps = Inr (nc', out')"
      by (auto simp: Let_def nc1_def split: sum.splits)
    with False show ?thesis by (intro Cons.IH) auto
  qed
qed

lemma fold_copy:
  "fold (\<lambda>field p. if cached field \<noteq> None then p(field := cached field) else p) fs p f
     = (if f \<in> set fs \<and> cached f \<noteq> None then cached f else p f)"
  by (induction fs arbitrary: p) auto

lemma copy_static_apply:
  "copy_static cached p f = (if f \<in> set static_fields \<and> cached f \<noteq> None then cached f else p f)"
  unfolding copy_static_def by (rule fold_copy)

lemma keys_card:
  assumes "distinct (map fst nc)"
  shows "card (Some ` fst ` set nc) = length nc"
proof -
  have "card (Some ` fst ` set nc) = card (fst ` set nc)"
    by (rule card_image) simp
  also have "\<dots> = card (set (map fst nc))" by simp
  also have "\<dots> = length (map fst nc)" using assms by (rule distinct_card)
  finally show ?thesis by simp
qed

lemma loop_nth:
  assumes "update_loop c t nc ps = Inr (nc', out)" and "distinct (map fst nc)"
  shows "length out = length ps \<and>
    (\<forall>i<length ps.
       if i = 0 \<or> int (card (Some ` fst ` set nc \<union> ident ` set (take i ps))) < max_size c
       then \<exists>pid. ident (ps ! i) = Some pid \<and> out ! i = merge_record c t pid (ps ! i)
       else out ! i = ps ! i)"
  using assms
proof (induction ps arbitrary: nc nc' out)
  case Nil
  then show ?case by simp
next
  case (Cons p rest)
  from Cons.prems(1) obtain k where k: "p ''pid'' = Some k"
    by (cases "p ''pid''") auto
  define p' where "p' = merge_record c t k p"
  define nc1 where "nc1 = AList.update k p' nc"
  have d1: "distinct (map fst nc1)"
    using Cons.prems(2) by (simp add: nc1_def distinct_update)
  have keys1: "Some ` fst ` set nc1 = insert (Some k) (Some ` fst ` set nc)"
    by (simp add: nc1_def dom_update)
  have len1: "int (length nc1) = int (card (insert (Some k) (Some ` fst ` set nc)))"
    using keys_card[OF d1] keys1 by simp
  show ?case
  proof (cases "int (length nc1) \<ge> max_size c")
    case True
    with Cons.prems(1) k have out: "out = p' # rest"
      by (simp add: Let_def p'_def nc1_def)
    have "\<not> int (card (Some ` fst ` set nc \<union> ident ` set (take (Suc j) (p # rest)))) < max_size c" for j
    proof -
      have "insert (Some k) (Some ` fst ` set nc) \<subseteq> Some ` fst ` set nc \<union> ident ` set (take (Suc j) (p # rest))"
        using k by (auto simp: ident_def)
      then have "card (insert (Some k) (Some ` fst ` set nc)) \<le> card (Some ` fst ` set nc \<union> ident ` set (take (Suc j) (p # rest)))"
        by (intro card_mono) auto
      with True len1 show ?thesis by linarith
    qed
    then show ?thesis
      using out k by (auto simp: ident_def p'_def nth_Cons split: nat.splits)
  next
    case False
    with Cons.prems(1) k obtain out' where
      rec: "update_loop c t nc1 rest = Inr (nc', out')" and out: "out = p' # out'"
      by (auto simp: Let_def p'_def nc1_def split: sum.splits)
    note IH = Cons.IH[OF rec d1]
    have seteq: "Some ` fst ` set nc \<union> ident ` set (take (Suc j) (p # rest))
        = Some ` fst ` set nc1 \<union> ident ` set (take j rest)" for j
      using k by (auto simp: keys1 ident_def)
    have base: "int (card (Some ` fst ` set nc1 \<union> ident ` set (take 0 rest))) < max_size c"
      using False len1 keys1 by simp
    show ?thesis
    proof (intro conjI allI impI)
      show "length out = length (p # rest)" using IH out by simp
    next
      fix i assume i: "i < length (p # rest)"
      show "if i = 0 \<or> int (card (Some ` fst ` set nc \<union> ident ` set (take i (p # rest)))) < max_size c
       then \<exists>pid. ident ((p # rest) ! i) = Some pid \<and> out ! i = merge_record c t pid ((p # rest) ! i)
       else out ! i = (p # rest) ! i"
      proof (cases i)
        case 0
        then show ?thesis using out k by (simp add: ident_def p'_def)
      next
        case (Suc j)
        with i have j: "j < length rest" by simp
        from IH j have "if j = 0 \<or> int (card (Some ` fst ` set nc1 \<union> ident ` set (take j rest))) < max_size c
           then \<exists>pid. ident (rest ! j) = Some pid \<and> out' ! j = merge_record c t pid (rest ! j)
           else out' ! j = rest ! j" by blast
        moreover have "(j = 0 \<or> int (card (Some ` fst ` set nc1 \<union> ident ` set (take j rest))) < max_size c)
            = (int (card (Some ` fst ` set nc \<union> ident ` set (take (Suc j) (p # rest)))) < max_size c)"
          using base seteq[of j] by (cases "j = 0") auto
        ultimately show ?thesis using Suc out by simp
      qed
    qed
  qed
qed


lemma uniq_from_prefix: "\<exists>ys. uniq_from seen xs = seen @ ys"
proof (induction xs arbitrary: seen)
  case Nil
  then show ?case by simp
next
  case (Cons x xs)
  from Cons.IH[of "if x \<in> set seen then seen else seen @ [x]"]
  show ?case by (auto split: if_splits)
qed

lemma take_uniq_from: "take (length seen) (uniq_from seen xs) = seen"
  using uniq_from_prefix[of seen xs] by auto

lemma uniq_from_distinct:
  "distinct xs \<Longrightarrow> set xs \<inter> set seen = {} \<Longrightarrow> uniq_from seen xs = seen @ xs"
  by (induction xs arbitrary: seen) auto

lemma keys_update:
  "map (Some \<circ> fst) (AList.update k v al)
     = (if Some k \<in> set (map (Some \<circ> fst) al) then map (Some \<circ> fst) al
        else map (Some \<circ> fst) al @ [Some k])"
  by (induction al) auto

lemma loop_keys:
  "update_loop c t nc ps = Inr (nc', out) \<Longrightarrow> int (length nc) < max_size c
     \<Longrightarrow> map (Some \<circ> fst) nc'
           = take (nat (max_size c)) (uniq_from (map (Some \<circ> fst) nc) (map ident ps))"
proof (induction ps arbitrary: nc nc' out)
  case Nil
  then show ?case by simp
next
  case (Cons p ps)
  from Cons.prems(1) obtain k where k: "p ''pid'' = Some k"
    by (cases "p ''pid''") auto
  define nc1 where "nc1 = AList.update k (merge_record c t k p) nc"
  have le: "length nc1 \<le> Suc (length nc)"
    by (simp add: nc1_def length_update)
  have keys1: "map (Some \<circ> fst) nc1
      = (if ident p \<in> set (map (Some \<circ> fst) nc) then map (Some \<circ> fst) nc
         else map (Some \<circ> fst) nc @ [ident p])"
    unfolding nc1_def ident_def k by (rule keys_update)
  then have step: "uniq_from (map (Some \<circ> fst) nc) (map ident (p # ps))
      = uniq_from (map (Some \<circ> fst) nc1) (map ident ps)"
    by simp
  show ?case
  proof (cases "int (length nc1) \<ge> max_size c")
    case True
    with Cons.prems(1) k have nc': "nc' = nc1"
      by (simp add: Let_def nc1_def)
    from True le Cons.prems(2) have "nat (max_size c) = length (map (Some \<circ> fst) nc1)"
      by simp
    then show ?thesis
      unfolding step nc' by (simp only: take_uniq_from)
  next
    case False
    with Cons.prems(1) k obtain out' where "update_loop c t nc1 ps = Inr (nc', out')"
      by (auto simp: Let_def nc1_def split: sum.splits)
    with False have "map (Some \<circ> fst) nc'
           = take (nat (max_size c)) (uniq_from (map (Some \<circ> fst) nc1) (map ident ps))"
      by (intro Cons.IH) auto
    then show ?thesis unfolding step .
  qed
qed

lemma update_fresh: "k \<notin> fst ` set al \<Longrightarrow> AList.update k v al = al @ [(k, v)]"
  by (induction al) auto

lemma loop_vals:
  "update_loop c t nc ps = Inr (nc', out) \<Longrightarrow> int (length nc) < max_size c
     \<Longrightarrow> distinct (map ident ps) \<Longrightarrow> set (map ident ps) \<inter> Some ` fst ` set nc = {}
     \<Longrightarrow> map snd nc' = map snd nc @ take (nat (max_size c) - length nc) out"
proof (induction ps arbitrary: nc nc' out)
  case Nil
  then show ?case by simp
next
  case (Cons p ps)
  from Cons.prems(1) obtain k where k: "p ''pid'' = Some k"
    by (cases "p ''pid''") auto
  define p' where "p' = merge_record c t k p"
  define nc1 where "nc1 = AList.update k p' nc"
  from Cons.prems(4) k have "k \<notin> fst ` set nc"
    by (auto simp: ident_def)
  then have nc1: "nc1 = nc @ [(k, p')]"
    unfolding nc1_def by (rule update_fresh)
  have pos: "nat (max_size c) - length nc = Suc (nat (max_size c) - length nc1)"
    using Cons.prems(2) nc1 by simp
  show ?case
  proof (cases "int (length nc1) \<ge> max_size c")
    case True
    with Cons.prems(1) k have "nc' = nc1" "out = p' # ps"
      by (simp_all add: Let_def nc1_def p'_def)
    moreover from True have "nat (max_size c) - length nc1 = 0" by simp
    ultimately show ?thesis using pos nc1 by simp
  next
    case False
    with Cons.prems(1) k obtain out' where
      rec: "update_loop c t nc1 ps = Inr (nc', out')" and out: "out = p' # out'"
      by (auto simp: Let_def nc1_def p'_def split: sum.splits)
    have "map snd nc' = map snd nc1 @ take (nat (max_size c) - length nc1) out'"
    proof (rule Cons.IH[OF rec])
      show "int (length nc1) < max_size c" using False by simp
      show "distinct (map ident ps)" using Cons.prems(3) by simp
      show "set (map ident ps) \<inter> Some ` fst ` set nc1 = {}"
        using Cons.prems(3,4) k nc1 by (auto simp: ident_def)
    qed
    then show ?thesis using pos nc1 out by simp
  qed
qed

lemma merge_record_other:
  "f \<notin> set static_fields \<Longrightarrow> merge_record c t pid p f = p f"
  by (simp add: merge_record_def copy_static_apply)

lemma merge_record_ident:
  assumes "cache_wf c" and "p ''pid'' = Some pid"
  shows "merge_record c t pid p ''pid'' = Some pid"
proof (cases "pid \<in> fst ` set (cache_od c) \<and> t - last_update c < 2.0")
  case True
  then obtain r where r: "map_of (cache_od c) pid = Some r"
    by (cases "map_of (cache_od c) pid") (auto simp: map_of_eq_None_iff)
  then have "(pid, r) \<in> set (cache_od c)" by (rule map_of_SomeD)
  with assms(1) have "r ''pid'' = Some pid"
    by (auto simp: cache_wf_def list_all_iff)
  with True r show ?thesis
    by (simp add: merge_record_def copy_static_apply static_fields_def)
next
  case False
  then have "merge_record c t pid p = p" unfolding merge_record_def by (rule if_not_P)
  with assms(2) show ?thesis by simp
qed

lemma set_update_subset: "set (AList.update k v al) \<subseteq> insert (k, v) (set al)"
  by (induction al) auto

lemma loop_wf:
  "update_loop c t nc ps = Inr (nc', out) \<Longrightarrow> cache_wf c
     \<Longrightarrow> distinct (map fst nc) \<Longrightarrow> list_all (\<lambda>(k, r). r ''pid'' = Some k) nc
     \<Longrightarrow> distinct (map fst nc') \<and> list_all (\<lambda>(k, r). r ''pid'' = Some k) nc'"
proof (induction ps arbitrary: nc nc' out)
  case Nil
  then show ?case by simp
next
  case (Cons p ps)
  from Cons.prems(1) obtain k where k: "p ''pid'' = Some k"
    by (cases "p ''pid''") auto
  define p' where "p' = merge_record c t k p"
  define nc1 where "nc1 = AList.update k p' nc"
  have d1: "distinct (map fst nc1)"
    using Cons.prems(3) by (simp add: nc1_def distinct_update)
  have "p' ''pid'' = Some k"
    unfolding p'_def using Cons.prems(2) k by (rule merge_record_ident)
  with Cons.prems(4) set_update_subset[of k p' nc]
  have a1: "list_all (\<lambda>(k, r). r ''pid'' = Some k) nc1"
    unfolding nc1_def list_all_iff by auto
  show ?case
  proof (cases "int (length nc1) \<ge> max_size c")
    case True
    with Cons.prems(1) k have "nc' = nc1"
      by (simp add: Let_def nc1_def p'_def)
    with d1 a1 show ?thesis by simp
  next
    case False
    with Cons.prems(1) k obtain out' where "update_loop c t nc1 ps = Inr (nc', out')"
      by (auto simp: Let_def nc1_def p'_def split: sum.splits)
    from Cons.IH[OF this Cons.prems(2) d1 a1] show ?thesis .
  qed
qed

lemma cache_wf_init: "cache_wf (ProcessCache_init m)"
  by (simp add: cache_wf_def ProcessCache_init_def)

lemma cache_wf_update:
  assumes "ProcessCache_update c t ps = Inr (c', out)" and "cache_wf c"
  shows "cache_wf c'"
proof -
  from assms(1) obtain nc where l: "update_loop c t [] ps = Inr (nc, out)"
    and c': "c' = c\<lparr>cache_od := nc, last_update := t\<rparr>"
    by (auto simp: ProcessCache_update_def split: sum.splits)
  from loop_wf[OF l assms(2)] c' show ?thesis
    by (simp add: cache_wf_def)
qed

lemma loop_total:
  "\<forall>p\<in>set ps. ident p \<noteq> None \<Longrightarrow> \<exists>nc' out. update_loop c t nc ps = Inr (nc', out)"
proof (induction ps arbitrary: nc)
  case Nil
  then show ?case by simp
next
  case (Cons p ps)
  then obtain k where k: "p ''pid'' = Some k" by (auto simp: ident_def)
  define nc1 where "nc1 = AList.update k (merge_record c t k p) nc"
  from Cons obtain nc' out where "update_loop c t nc1 ps = Inr (nc', out)" by fastforce
  with k show ?case by (simp add: Let_def nc1_def)
qed

lemma update_total:
  assumes "\<forall>p\<in>set ps. ident p \<noteq> None"
  shows "\<exists>c' out. ProcessCache_update c t ps = Inr (c', out)"
proof -
  from loop_total[OF assms] obtain nc out where "update_loop c t [] ps = Inr (nc, out)"
    by blast
  then show ?thesis by (simp add: ProcessCache_update_def)
qed

lemma update_length:
  assumes "ProcessCache_update c t ps = Inr (c', out)"
  shows "length out = length ps"
proof -
  from assms obtain nc where l: "update_loop c t [] ps = Inr (nc, out)"
    by (auto simp: ProcessCache_update_def split: sum.splits)
  from loop_nth[OF l] show ?thesis by simp
qed

lemma update_nth:
  assumes "ProcessCache_update c t ps = Inr (c', out)" and "i < length ps"
  shows "if i = 0 \<or> int (card (ident ` set (take i ps))) < max_size c
       then \<exists>pid. ident (ps ! i) = Some pid \<and> out ! i = merge_record c t pid (ps ! i)
       else out ! i = ps ! i"
proof -
  from assms obtain nc where l: "update_loop c t [] ps = Inr (nc, out)"
    by (auto simp: ProcessCache_update_def split: sum.splits)
  from loop_nth[OF l] assms(2) show ?thesis by simp
qed

text \<open>
  Claim C1 (amended). For every input sequence and every configured capacity of at least
  one, the generation that \<open>update\<close> installs holds at most \<open>max_size\<close> entries.
\<close>

theorem C1_size_within_capacity:
  assumes "ProcessCache_update c t ps = Inr (c', out)" and "1 \<le> max_size c"
  shows "int (length (cache_od c')) \<le> max_size c'"
proof -
  from assms(1) obtain nc where l: "update_loop c t [] ps = Inr (nc, out)"
    and c': "c' = c\<lparr>cache_od := nc, last_update := t\<rparr>"
    by (auto simp: ProcessCache_update_def split: sum.splits)
  from l assms(2) have "int (length nc) \<le> max_size c"
    by (intro loop_len) auto
  with c' show ?thesis by simp
qed

text \<open>Capacity 2 and three records: the new generation holds two.\<close>

theorem C1_witness:
  "ProcessCache_update (ProcessCache_init 2) 10 [ex_rec 1 ''a'', ex_rec 2 ''b'', ex_rec 3 ''c'']
     = Inr (\<lparr>cache_od = [(VInt 1, ex_rec 1 ''a''), (VInt 2, ex_rec 2 ''b'')],
              max_size = 2, last_update = 10\<rparr>,
            [ex_rec 1 ''a'', ex_rec 2 ''b'', ex_rec 3 ''c''])
   \<and> (1::int) \<le> max_size (ProcessCache_init 2)
   \<and> int (length [(VInt 1, ex_rec 1 ''a''), (VInt 2, ex_rec 2 ''b'')]) \<le> 2"
proof -
  have u: "ProcessCache_update (ProcessCache_init 2) 10 [ex_rec 1 ''a'', ex_rec 2 ''b'', ex_rec 3 ''c'']
     = Inr (\<lparr>cache_od = [(VInt 1, ex_rec 1 ''a''), (VInt 2, ex_rec 2 ''b'')],
              max_size = 2, last_update = 10\<rparr>,
            [ex_rec 1 ''a'', ex_rec 2 ''b'', ex_rec 3 ''c''])"
    by (simp add: ProcessCache_update_def ProcessCache_init_def merge_record_def ex_rec_pid Let_def)
  have m: "(1::int) \<le> max_size (ProcessCache_init 2)"
    by (simp add: ProcessCache_init_def)
  from C1_size_within_capacity[OF u m] u m show ?thesis by simp
qed

text \<open>
  Claim C1 as stated, for every capacity, fails at capacity 0: the size is tested after
  the insertion, so the first record is always stored.
\<close>

theorem C1_counterexample:
  "ProcessCache_update (ProcessCache_init 0) 10 [ex_rec 1 ''a'']
     = Inr (\<lparr>cache_od = [(VInt 1, ex_rec 1 ''a'')], max_size = 0, last_update = 10\<rparr>,
            [ex_rec 1 ''a''])
   \<and> \<not> int (length [(VInt 1, ex_rec 1 ''a'')]) \<le> (0::int)"
  by (simp add: ProcessCache_update_def ProcessCache_init_def merge_record_def ex_rec_pid Let_def)

text \<open>
  Claim C2 (amended). The loop of \<open>update\<close> visits the first record and every later
  record that fewer than \<open>max_size\<close> distinct identities precede (with pairwise
  distinct identities and a capacity of at least one: the first \<open>max_size\<close> records).
  For a visited record, the returned record carries every static attribute that the prior
  generation's record for its identity holds if and only if that identity is in the prior
  generation and less than 2.0 seconds passed since the last generation time; otherwise
  the observed values are kept. A record after the stop of the loop is returned as
  observed, whatever the prior generation holds.
\<close>

theorem C2_static_carryover:
  assumes "ProcessCache_update c t ps = Inr (c', out)" and "i < length ps"
  shows "if i = 0 \<or> int (card (ident ` set (take i ps))) < max_size c
         then \<exists>pid. ident (ps ! i) = Some pid \<and>
                (case map_of (cache_od c) pid of
                   Some cached \<Rightarrow>
                     if t - last_update c < 2.0
                     then \<forall>f. (out ! i) f =
                            (if f \<in> set static_fields \<and> cached f \<noteq> None then cached f
                             else (ps ! i) f)
                     else out ! i = ps ! i
                 | None \<Rightarrow> out ! i = ps ! i)
         else out ! i = ps ! i"
proof (cases "i = 0 \<or> int (card (ident ` set (take i ps))) < max_size c")
  case False
  with update_nth[OF assms] show ?thesis by simp
next
  case True
  with update_nth[OF assms] obtain pid where
    pid: "ident (ps ! i) = Some pid" and o: "out ! i = merge_record c t pid (ps ! i)"
    by auto
  have "case map_of (cache_od c) pid of
          Some cached \<Rightarrow>
            if t - last_update c < 2.0
            then \<forall>f. (out ! i) f =
                   (if f \<in> set static_fields \<and> cached f \<noteq> None then cached f else (ps ! i) f)
            else out ! i = ps ! i
        | None \<Rightarrow> out ! i = ps ! i"
  proof (cases "map_of (cache_od c) pid")
    case None
    then have "pid \<notin> fst ` set (cache_od c)" by (simp add: map_of_eq_None_iff)
    with o None show ?thesis by (simp add: merge_record_def)
  next
    case (Some cached)
    then have "pid \<in> fst ` set (cache_od c)"
      by (metis map_of_eq_None_iff option.distinct(1))
    with o Some show ?thesis
      by (simp add: merge_record_def copy_static_apply)
  qed
  with True pid show ?thesis by simp
qed

text \<open>
  Identity 42 cached with name alpha at time 100: observed with name beta at 101 it comes
  back as alpha, at 102.5 as beta.
\<close>

theorem C2_witness:
  "ProcessCache_update (ex_prior 500) 101 [ex_rec 42 ''beta'']
     = Inr (\<lparr>cache_od = [(VInt 42, copy_static (ex_rec 42 ''alpha'') (ex_rec 42 ''beta''))],
              max_size = 500, last_update = 101\<rparr>,
            [copy_static (ex_rec 42 ''alpha'') (ex_rec 42 ''beta'')])
   \<and> copy_static (ex_rec 42 ''alpha'') (ex_rec 42 ''beta'') ''name'' = Some (VStr ''alpha'')
   \<and> ProcessCache_update (ex_prior 500) 102.5 [ex_rec 42 ''beta'']
     = Inr (\<lparr>cache_od = [(VInt 42, ex_rec 42 ''beta'')], max_size = 500, last_update = 102.5\<rparr>,
            [ex_rec 42 ''beta''])
   \<and> ex_rec 42 ''beta'' ''name'' = Some (VStr ''beta'')"
proof -
  have u1: "ProcessCache_update (ex_prior 500) 101 [ex_rec 42 ''beta'']
     = Inr (\<lparr>cache_od = [(VInt 42, copy_static (ex_rec 42 ''alpha'') (ex_rec 42 ''beta''))],
              max_size = 500, last_update = 101\<rparr>,
            [copy_static (ex_rec 42 ''alpha'') (ex_rec 42 ''beta'')])"
    by (simp add: ProcessCache_update_def ex_prior_def merge_record_def ex_rec_pid Let_def)
  have u2: "ProcessCache_update (ex_prior 500) 102.5 [ex_rec 42 ''beta'']
     = Inr (\<lparr>cache_od = [(VInt 42, ex_rec 42 ''beta'')], max_size = 500, last_update = 102.5\<rparr>,
            [ex_rec 42 ''beta''])"
    by (simp add: ProcessCache_update_def ex_prior_def merge_record_def ex_rec_pid Let_def)
  have i: "0 < length [ex_rec 42 ''beta'']" by simp
  from C2_static_carryover[OF u1 i]
  have "copy_static (ex_rec 42 ''alpha'') (ex_rec 42 ''beta'') ''name'' = Some (VStr ''alpha'')"
    by (simp add: ident_def ex_rec_pid ex_rec_name ex_prior_def static_fields_def)
  with u1 u2 show ?thesis by (simp add: ex_rec_name)
qed

text \<open>
  Claim C2 as stated, for every record of the sequence, fails behind the capacity: with
  capacity 1 the loop stops after the record of identity 7, and identity 42, cached one
  second before with name alpha, comes back with its observed name beta.
\<close>

theorem C2_counterexample:
  "ProcessCache_update (ProcessCache_init 1) 100 [ex_rec 42 ''alpha'']
     = Inr (ex_prior 1, [ex_rec 42 ''alpha''])
   \<and> VInt 42 \<in> fst ` set (cache_od (ex_prior 1))
   \<and> (101::real) - last_update (ex_prior 1) < 2.0
   \<and> ProcessCache_update (ex_prior 1) 101 [ex_rec 7 ''x'', ex_rec 42 ''beta'']
     = Inr (\<lparr>cache_od = [(VInt 7, ex_rec 7 ''x'')], max_size = 1, last_update = 101\<rparr>,
            [ex_rec 7 ''x'', ex_rec 42 ''beta''])
   \<and> the (map_of (cache_od (ex_prior 1)) (VInt 42)) ''name'' = Some (VStr ''alpha'')
   \<and> ex_rec 42 ''beta'' ''name'' = Some (VStr ''beta'')"
  by (simp add: ProcessCache_update_def ProcessCache_init_def ex_prior_def merge_record_def
      ex_rec_pid ex_rec_name Let_def)

lemma update_sequence:
  assumes "ProcessCache_update c t ps = Inr (c', out)" and "1 \<le> max_size c"
  shows "length out = length ps
    \<and> (\<forall>i<length ps. \<forall>f. f \<notin> set static_fields \<longrightarrow> (out ! i) f = (ps ! i) f)
    \<and> (cache_wf c \<longrightarrow> map ident out = map ident ps)
    \<and> map (Some \<circ> fst) (cache_od c') = take (nat (max_size c)) (uniq_from [] (map ident ps))
    \<and> (distinct (map ident ps) \<longrightarrow>
          map (Some \<circ> fst) (cache_od c') = take (nat (max_size c)) (map ident ps)
        \<and> map snd (cache_od c') = take (nat (max_size c)) out
        \<and> (\<forall>i<length ps. nat (max_size c) \<le> i \<longrightarrow>
              ident (ps ! i) \<notin> Some ` fst ` set (cache_od c') \<and> out ! i = ps ! i))"
proof -
  from assms(1) obtain nc where l: "update_loop c t [] ps = Inr (nc, out)"
    and c': "c' = c\<lparr>cache_od := nc, last_update := t\<rparr>"
    by (auto simp: ProcessCache_update_def split: sum.splits)
  note nth = update_nth[OF assms(1)]
  have len: "length out = length ps" using assms(1) by (rule update_length)
  have step: "out ! i = ps ! i \<or> (\<exists>pid. ident (ps ! i) = Some pid \<and> out ! i = merge_record c t pid (ps ! i))"
    if "i < length ps" for i
    using nth[OF that] by (auto split: if_splits)
  have other: "\<forall>i<length ps. \<forall>f. f \<notin> set static_fields \<longrightarrow> (out ! i) f = (ps ! i) f"
  proof (intro allI impI)
    fix i f assume "i < length ps" and "f \<notin> set static_fields"
    with step[of i] show "(out ! i) f = (ps ! i) f"
      by (auto simp: merge_record_other)
  qed
  have ids: "map ident out = map ident ps" if wf: "cache_wf c"
  proof (rule nth_equalityI)
    show "length (map ident out) = length (map ident ps)" using len by simp
  next
    fix i assume "i < length (map ident out)"
    then have i: "i < length ps" using len by simp
    from step[OF i] have "ident (out ! i) = ident (ps ! i)"
      using merge_record_ident[OF wf] by (auto simp: ident_def)
    with i len show "map ident out ! i = map ident ps ! i" by simp
  qed
  have keys: "map (Some \<circ> fst) nc = take (nat (max_size c)) (uniq_from [] (map ident ps))"
    using loop_keys[OF l] assms(2) by simp
  have dist: "map (Some \<circ> fst) nc = take (nat (max_size c)) (map ident ps)
        \<and> map snd nc = take (nat (max_size c)) out
        \<and> (\<forall>i<length ps. nat (max_size c) \<le> i \<longrightarrow>
              ident (ps ! i) \<notin> Some ` fst ` set nc \<and> out ! i = ps ! i)"
    if d: "distinct (map ident ps)"
  proof (intro conjI allI impI)
    show k: "map (Some \<circ> fst) nc = take (nat (max_size c)) (map ident ps)"
      using keys uniq_from_distinct[OF d, of "[]"] by simp
    show "map snd nc = take (nat (max_size c)) out"
      using loop_vals[OF l _ d] assms(2) by simp
    fix i assume i: "i < length ps" and big: "nat (max_size c) \<le> i"
    show "ident (ps ! i) \<notin> Some ` fst ` set nc"
    proof
      assume "ident (ps ! i) \<in> Some ` fst ` set nc"
      then have "map ident ps ! i \<in> set (take (nat (max_size c)) (map ident ps))"
        using k[symmetric] i by (simp add: image_image comp_def)
      then obtain j where j: "j < nat (max_size c)" "j < length ps"
        and eq: "map ident ps ! j = map ident ps ! i"
        by (auto simp: in_set_conv_nth)
      have "j = i"
        using nth_eq_iff_index_eq[OF d, of j i] j(2) i eq by simp
      with j big show False by simp
    qed
    have "card (ident ` set (take i ps)) = i"
    proof -
      have "distinct (map ident (take i ps))"
        using d by (simp add: take_map[symmetric])
      then have "card (set (map ident (take i ps))) = length (map ident (take i ps))"
        by (rule distinct_card)
      with i show ?thesis by simp
    qed
    with big assms(2) have "\<not> (i = 0 \<or> int (card (ident ` set (take i ps))) < max_size c)"
      by auto
    with nth[OF i] show "out ! i = ps ! i" by simp
  qed
  from len other ids keys dist show ?thesis
    unfolding c' by simp
qed

text \<open>
  Claim C4 (amended). For every observed sequence and every capacity of at least one,
  \<open>update\<close> returns (it raises only on a record without identity), and it returns a
  sequence of the same length whose records are the observed ones
  in input order (only static attributes may differ; with a well-formed prior generation
  the identities are the same). The new generation holds the first \<open>max_size\<close>
  distinct identities of the input in order of first appearance. When the identities are
  pairwise distinct it holds exactly the first \<open>max_size\<close> returned records, and a
  record behind them is absent from the cache and returned as observed.
\<close>

theorem C4_whole_sequence_returned:
  assumes "1 \<le> max_size c"
  shows "((\<forall>p\<in>set ps. ident p \<noteq> None) \<longrightarrow>
            (\<exists>c' out. ProcessCache_update c t ps = Inr (c', out)))
    \<and> (\<forall>c' out. ProcessCache_update c t ps = Inr (c', out) \<longrightarrow>
          length out = length ps
        \<and> (\<forall>i<length ps. \<forall>f. f \<notin> set static_fields \<longrightarrow> (out ! i) f = (ps ! i) f)
        \<and> (cache_wf c \<longrightarrow> map ident out = map ident ps)
        \<and> map (Some \<circ> fst) (cache_od c')
            = take (nat (max_size c)) (uniq_from [] (map ident ps))
        \<and> (distinct (map ident ps) \<longrightarrow>
              map (Some \<circ> fst) (cache_od c') = take (nat (max_size c)) (map ident ps)
            \<and> map snd (cache_od c') = take (nat (max_size c)) out
            \<and> (\<forall>i<length ps. nat (max_size c) \<le> i \<longrightarrow>
                  ident (ps ! i) \<notin> Some ` fst ` set (cache_od c') \<and> out ! i = ps ! i)))"
proof -
  have total: "(\<forall>p\<in>set ps. ident p \<noteq> None) \<longrightarrow>
            (\<exists>c' out. ProcessCache_update c t ps = Inr (c', out))"
    by (intro impI) (rule update_total)
  have rest: "\<forall>c' out. ProcessCache_update c t ps = Inr (c', out) \<longrightarrow>
          length out = length ps
        \<and> (\<forall>i<length ps. \<forall>f. f \<notin> set static_fields \<longrightarrow> (out ! i) f = (ps ! i) f)
        \<and> (cache_wf c \<longrightarrow> map ident out = map ident ps)
        \<and> map (Some \<circ> fst) (cache_od c')
            = take (nat (max_size c)) (uniq_from [] (map ident ps))
        \<and> (distinct (map ident ps) \<longrightarrow>
              map (Some \<circ> fst) (cache_od c') = take (nat (max_size c)) (map ident ps)
            \<and> map snd (cache_od c') = take (nat (max_size c)) out
            \<and> (\<forall>i<length ps. nat (max_size c) \<le> i \<longrightarrow>
                  ident (ps ! i) \<notin> Some ` fst ` set (cache_od c') \<and> out ! i = ps ! i))"
  proof (intro allI impI)
    fix c' out
    assume u: "ProcessCache_update c t ps = Inr (c', out)"
    from update_sequence[OF u assms]
    show "length out = length ps
        \<and> (\<forall>i<length ps. \<forall>f. f \<notin> set static_fields \<longrightarrow> (out ! i) f = (ps ! i) f)
        \<and> (cache_wf c \<longrightarrow> map ident out = map ident ps)
        \<and> map (Some \<circ> fst) (cache_od c')
            = take (nat (max_size c)) (uniq_from [] (map ident ps))
        \<and> (distinct (map ident ps) \<longrightarrow>
              map (Some \<circ> fst) (cache_od c') = take (nat (max_size c)) (map ident ps)
            \<and> map snd (cache_od c') = take (nat (max_size c)) out
            \<and> (\<forall>i<length ps. nat (max_size c) \<le> i \<longrightarrow>
                  ident (ps ! i) \<notin> Some ` fst ` set (cache_od c') \<and> out ! i = ps ! i))" .
  qed
  from total rest show ?thesis by (rule conjI)
qed

text \<open>Capacity 3 and the records a, b, c, d, e: the cache holds a, b, c; all five come back.\<close>

theorem C4_witness:
  "ProcessCache_update (ProcessCache_init 3) 10
       [ex_rec 1 ''a'', ex_rec 2 ''b'', ex_rec 3 ''c'', ex_rec 4 ''d'', ex_rec 5 ''e'']
     = Inr (\<lparr>cache_od = [(VInt 1, ex_rec 1 ''a''), (VInt 2, ex_rec 2 ''b''), (VInt 3, ex_rec 3 ''c'')],
              max_size = 3, last_update = 10\<rparr>,
            [ex_rec 1 ''a'', ex_rec 2 ''b'', ex_rec 3 ''c'', ex_rec 4 ''d'', ex_rec 5 ''e''])
   \<and> (1::int) \<le> max_size (ProcessCache_init 3)
   \<and> cache_wf (ProcessCache_init 3)
   \<and> distinct (map ident [ex_rec 1 ''a'', ex_rec 2 ''b'', ex_rec 3 ''c'', ex_rec 4 ''d'', ex_rec 5 ''e''])
   \<and> map snd [(VInt 1, ex_rec 1 ''a''), (VInt 2, ex_rec 2 ''b''), (VInt 3, ex_rec 3 ''c'')]
       = take 3 [ex_rec 1 ''a'', ex_rec 2 ''b'', ex_rec 3 ''c'', ex_rec 4 ''d'', ex_rec 5 ''e'']"
proof -
  let ?ps = "[ex_rec 1 ''a'', ex_rec 2 ''b'', ex_rec 3 ''c'', ex_rec 4 ''d'', ex_rec 5 ''e'']"
  have u: "ProcessCache_update (ProcessCache_init 3) 10 ?ps
     = Inr (\<lparr>cache_od = [(VInt 1, ex_rec 1 ''a''), (VInt 2, ex_rec 2 ''b''), (VInt 3, ex_rec 3 ''c'')],
              max_size = 3, last_update = 10\<rparr>, ?ps)"
    by (simp add: ProcessCache_update_def ProcessCache_init_def merge_record_def ex_rec_pid Let_def)
  have m: "(1::int) \<le> max_size (ProcessCache_init 3)"
    by (simp add: ProcessCache_init_def)
  have w: "cache_wf (ProcessCache_init 3)"
    by (simp add: cache_wf_def ProcessCache_init_def)
  have d: "distinct (map ident ?ps)"
    by (simp add: ident_def ex_rec_pid)
  from C4_whole_sequence_returned[OF m, THEN conjunct2, rule_format, OF u] d
  have "map snd [(VInt 1, ex_rec 1 ''a''), (VInt 2, ex_rec 2 ''b''), (VInt 3, ex_rec 3 ''c'')]
       = take (nat (max_size (ProcessCache_init 3))) ?ps"
    by simp
  with u m w d show ?thesis by (simp add: ProcessCache_init_def)
qed

text \<open>
  Claim C4 as stated fails at capacity 0: the first record is stored although no record
  is within the capacity.
\<close>

theorem C4_counterexample:
  "ProcessCache_update (ProcessCache_init 0) 10 [ex_rec 1 ''a'', ex_rec 2 ''b'']
     = Inr (\<lparr>cache_od = [(VInt 1, ex_rec 1 ''a'')], max_size = 0, last_update = 10\<rparr>,
            [ex_rec 1 ''a'', ex_rec 2 ''b''])
   \<and> map snd [(VInt 1, ex_rec 1 ''a'')] \<noteq> take (nat 0) [ex_rec 1 ''a'', ex_rec 2 ''b'']"
  by (simp add: ProcessCache_update_def ProcessCache_init_def merge_record_def ex_rec_pid Let_def)

subsection \<open>The refresh policy\<close>

text \<open>
  Claim C3 (amended). \<open>needs_full_update\<close> is the rule of the refresh policy: it answers
  true exactly when more than five identities appeared, or more than five vanished, or
  more than 5.0 seconds passed since the last generation. With no churn it is true at an
  elapsed time of 6.0 s and of 5.9 s and false up to 5.0 s; with six appeared identities
  it is true.
\<close>

theorem C3_refresh_policy:
  "needs_full_update c now current_pids
     = needsFullUpdate (fset_of_list (map fst (cache_od c))) current_pids now (last_update c)
   \<and> (needs_full_update c now current_pids \<longleftrightarrow>
        fcard (current_pids |-| fset_of_list (map fst (cache_od c))) > 5
        \<or> fcard (fset_of_list (map fst (cache_od c)) |-| current_pids) > 5
        \<or> now - last_update c > 5.0)
   \<and> (current_pids = fset_of_list (map fst (cache_od c)) \<longrightarrow>
        (now - last_update c = 6.0 \<longrightarrow> needs_full_update c now current_pids)
        \<and> (now - last_update c = 5.9 \<longrightarrow> needs_full_update c now current_pids)
        \<and> (now - last_update c \<le> 5.0 \<longrightarrow> \<not> needs_full_update c now current_pids))
   \<and> (fcard (current_pids |-| fset_of_list (map fst (cache_od c))) = 6 \<longrightarrow>
        needs_full_update c now current_pids)"
proof -
  define K where "K = fset_of_list (map fst (cache_od c))"
  have iff: "needs_full_update c now current_pids \<longleftrightarrow>
        fcard (current_pids |-| K) > 5 \<or> fcard (K |-| current_pids) > 5
        \<or> now - last_update c > 5.0"
    by (simp add: needs_full_update_def Let_def K_def)
  have spec: "needs_full_update c now current_pids = needsFullUpdate K current_pids now (last_update c)"
    using iff by (simp add: needsFullUpdate_def Let_def)
  have quiet: "needs_full_update c now current_pids \<longleftrightarrow> now - last_update c > 5.0"
    if "current_pids = K"
    using iff that by (simp add: fcard_fempty)
  have at6: "needs_full_update c now current_pids"
    if "current_pids = K" and "now - last_update c = 6.0"
  proof -
    from that(2) have "now - last_update c > 5.0" by linarith
    with quiet[OF that(1)] show ?thesis by blast
  qed
  have at59: "needs_full_update c now current_pids"
    if "current_pids = K" and "now - last_update c = 5.9"
  proof -
    from that(2) have "now - last_update c > 5.0" by linarith
    with quiet[OF that(1)] show ?thesis by blast
  qed
  have at5: "\<not> needs_full_update c now current_pids"
    if "current_pids = K" and "now - last_update c \<le> 5.0"
  proof -
    from that(2) have "\<not> (now - last_update c > 5.0)" by linarith
    with quiet[OF that(1)] show ?thesis by blast
  qed
  have six: "needs_full_update c now current_pids" if "fcard (current_pids |-| K) = 6"
    using iff that by simp
  from iff spec at6 at59 at5 six show ?thesis
    unfolding K_def by blast
qed

text \<open>The examples of the policy: six appeared identities; no churn after 6 s and after 5 s.\<close>

theorem C3_witness:
  "needs_full_update ex_cache3 100
     {|VInt 1, VInt 2, VInt 9, VInt 10, VInt 11, VInt 12, VInt 13, VInt 14|}
   \<and> needs_full_update ex_cache3 106 {|VInt 1, VInt 2, VInt 3|}
   \<and> \<not> needs_full_update ex_cache3 105 {|VInt 1, VInt 2, VInt 3|}"
proof -
  have six: "fcard ({|VInt 1, VInt 2, VInt 9, VInt 10, VInt 11, VInt 12, VInt 13, VInt 14|}
               |-| fset_of_list (map fst (cache_od ex_cache3))) = 6"
    by (simp add: ex_cache3_def fcard_finsert_if)
  have same: "{|VInt 1, VInt 2, VInt 3|} = fset_of_list (map fst (cache_od ex_cache3))"
    by (simp add: ex_cache3_def)
  have t6: "(106::real) - last_update ex_cache3 = 6.0" by (simp add: ex_cache3_def)
  have t5: "(105::real) - last_update ex_cache3 \<le> 5.0" by (simp add: ex_cache3_def)
  from C3_refresh_policy[of ex_cache3 100 "{|VInt 1, VInt 2, VInt 9, VInt 10, VInt 11, VInt 12, VInt 13, VInt 14|}"]
    six have a: "needs_full_update ex_cache3 100
     {|VInt 1, VInt 2, VInt 9, VInt 10, VInt 11, VInt 12, VInt 13, VInt 14|}" by blast
  from C3_refresh_policy[of ex_cache3 106 "{|VInt 1, VInt 2, VInt 3|}"] same t6
  have b: "needs_full_update ex_cache3 106 {|VInt 1, VInt 2, VInt 3|}" by blast
  from C3_refresh_policy[of ex_cache3 105 "{|VInt 1, VInt 2, VInt 3|}"] same t5
  have c: "\<not> needs_full_update ex_cache3 105 {|VInt 1, VInt 2, VInt 3|}" by blast
  from a b c show ?thesis by simp
qed

text \<open>
  Claim C3 as stated says the answer is false 5.9 s after the last generation when
  nothing changed; 5.9 exceeds 5.0 and the answer is true.
\<close>

theorem C3_counterexample:
  "{|VInt 1, VInt 2, VInt 3|} = fset_of_list (map fst (cache_od ex_cache3))
   \<and> (105.9::real) - last_update ex_cache3 = 5.9
   \<and> needs_full_update ex_cache3 105.9 {|VInt 1, VInt 2, VInt 3|}"
  by (simp add: ex_cache3_def needs_full_update_def Let_def fcard_fempty)

text \<open>
  Claim C10. A cache that was never updated is empty with generation time 0, so once the
  clock is past 5.0 seconds \<open>needs_full_update\<close> answers true for every set of
  current identities.
\<close>

theorem C10_first_decision_is_full:
  "5.0 < now \<Longrightarrow> needs_full_update (ProcessCache_init m) now current_pids"
  by (simp add: needs_full_update_def ProcessCache_init_def Let_def)

text \<open>The clock at 6 s, two current identities.\<close>

theorem C10_witness:
  "(5.0::real) < 6 \<and> needs_full_update (ProcessCache_init 500) 6 {|VInt 4, VInt 8|}"
proof -
  have h: "(5.0::real) < 6" by simp
  from C10_first_decision_is_full[OF h] h show ?thesis by simp
qed

section \<open>Properties of the manager\<close>

lemma finish_full_frame:
  "snd (fst (finish_full h w m built)) = w \<and> dll (fst (fst (finish_full h w m built))) = dll m"
  by (simp add: finish_full_def split: sum.splits prod.splits)

lemma get_processes_psutil_frame:
  "snd (fst (get_processes_psutil h w m f)) = w
   \<and> dll (fst (fst (get_processes_psutil h w m f))) = dll m"
  by (simp add: get_processes_psutil_def finish_full_frame split: prod.splits option.splits)

lemma get_processes_from_dll_calls:
  "fst (get_processes_from_dll m w)
     = (if dll m then w\<lparr>dll_calls := Suc (dll_calls w)\<rparr> else w)"
  by (simp add: get_processes_from_dll_def Let_def split: dll_reply.splits)

lemma get_processes_world:
  "snd (fst (get_processes h w m f))
     = (if dll m \<and> f then w\<lparr>dll_calls := Suc (dll_calls w)\<rparr> else w)"
  using get_processes_from_dll_calls[of m w]
  by (auto simp: get_processes_def finish_full_frame get_processes_psutil_frame
      split: prod.splits)

lemma get_processes_dll:
  "dll (fst (fst (get_processes h w m f))) = dll m"
  by (auto simp: get_processes_def finish_full_frame get_processes_psutil_frame
      split: prod.splits)

lemma run_dll: "dll (fst (run calls (m, w))) = dll m"
proof (induction calls arbitrary: m w)
  case Nil
  then show ?case by simp
next
  case (Cons a calls)
  obtain h f where a: "a = (h, f)" by (cases a)
  obtain m' w' where s: "fst (get_processes h w m f) = (m', w')"
    by (cases "fst (get_processes h w m f)")
  from s have "dll m' = dll m" using get_processes_dll[of h w m f] by simp
  with Cons.IH[of m' w'] a s show ?case by simp
qed

lemma run_dll_calls:
  "dll_calls (snd (run calls (m, w)))
     = (if dll m then dll_calls w + length (filter snd calls) else dll_calls w)"
proof (induction calls arbitrary: m w)
  case Nil
  then show ?case by simp
next
  case (Cons a calls)
  obtain h f where a: "a = (h, f)" by (cases a)
  obtain m' w' where s: "fst (get_processes h w m f) = (m', w')"
    by (cases "fst (get_processes h w m f)")
  from s have d: "dll m' = dll m" using get_processes_dll[of h w m f] by simp
  from s have w': "w' = (if dll m \<and> f then w\<lparr>dll_calls := Suc (dll_calls w)\<rparr> else w)"
    using get_processes_world[of h w m f] by simp
  from Cons.IH[of m' w'] a s d w' show ?case by simp
qed


lemma get_processes_no_dll:
  "\<not> dll m \<Longrightarrow> get_processes h w m f = get_processes_psutil h w m f"
  by (simp add: get_processes_def)

lemma get_processes_no_data:
  assumes "dll m" and "dll_replies w (dll_calls w) \<in> {DllRaises, DllNull, DllJson []}"
  shows "get_processes h w m True
           = get_processes_psutil h (w\<lparr>dll_calls := Suc (dll_calls w)\<rparr>) m True"
  using assms by (auto simp: get_processes_def get_processes_from_dll_def Let_def)

text \<open>
  Claim C5 (amended). When the bulk backend failed to initialise, the manager never
  queries it for the rest of the run, and every full refresh is the introspection-only
  one. When it did initialise, every full refresh queries it once, whatever it replied
  before; a reply that raises or carries no data makes that one refresh fall back to the
  introspection-only enumeration.
\<close>

theorem C5_bulk_backend_fallback:
  "(\<not> dll m \<longrightarrow>
       \<not> dll (fst (run calls (m, w)))
     \<and> dll_calls (snd (run calls (m, w))) = dll_calls w
     \<and> get_processes h w m True = get_processes_psutil h w m True)
   \<and> (dll m \<longrightarrow>
       dll (fst (run calls (m, w)))
     \<and> dll_calls (snd (run calls (m, w))) = dll_calls w + length (filter snd calls)
     \<and> (dll_replies w (dll_calls w) \<in> {DllRaises, DllNull, DllJson []} \<longrightarrow>
          get_processes h w m True
            = get_processes_psutil h (w\<lparr>dll_calls := Suc (dll_calls w)\<rparr>) m True))
   \<and> \<not> dll (ProcessManager_init False) \<and> dll (ProcessManager_init True)"
  using run_dll[of calls m w] run_dll_calls[of calls m w]
    get_processes_no_dll[of m h w True] get_processes_no_data[of m w h]
  by (simp add: ProcessManager_init_def)

text \<open>Two full refreshes and a quick one: no query without the DLL, two queries with it.\<close>

theorem C5_witness:
  "\<not> dll (ProcessManager_init False)
   \<and> dll_calls (snd (run [(ex_host, True), (ex_host, False), (ex_host, True)]
                       (ProcessManager_init False, ex_world))) = 0
   \<and> dll (ProcessManager_init True)
   \<and> dll_calls (snd (run [(ex_host, True), (ex_host, False), (ex_host, True)]
                       (ProcessManager_init True, ex_world))) = 2"
proof -
  have a: "\<not> dll (ProcessManager_init False)" and b: "dll (ProcessManager_init True)"
    by (simp_all add: ProcessManager_init_def)
  from C5_bulk_backend_fallback[of "ProcessManager_init False"
      "[(ex_host, True), (ex_host, False), (ex_host, True)]" ex_world ex_host] a
  have c: "dll_calls (snd (run [(ex_host, True), (ex_host, False), (ex_host, True)]
                       (ProcessManager_init False, ex_world))) = 0"
    by (simp add: ex_world_def del: run.simps)
  from C5_bulk_backend_fallback[of "ProcessManager_init True"
      "[(ex_host, True), (ex_host, False), (ex_host, True)]" ex_world ex_host] b
  have d: "dll_calls (snd (run [(ex_host, True), (ex_host, False), (ex_host, True)]
                       (ProcessManager_init True, ex_world))) = 2"
    by (simp add: ex_world_def del: run.simps)
  from a b c d show ?thesis by simp
qed

text \<open>
  Claim C5 as stated fails after a failure to respond: the DLL is loaded and its first
  reply raises, so the first full refresh enumerates through psutil (status running);
  the second full refresh queries the DLL again and returns its entry, enriched by the
  per-identity query (status sleeping).
\<close>

theorem C5_counterexample:
  "dll (ProcessManager_init True)
   \<and> dll_replies ex_world 0 = DllRaises
   \<and> dll_calls (snd (run [(ex_host, True)] (ProcessManager_init True, ex_world))) = 1
   \<and> map (\<lambda>r. r ''status'')
         (processes (fst (run [(ex_host, True)] (ProcessManager_init True, ex_world))))
       = [Some (VStr ''running'')]
   \<and> dll_calls (snd (run [(ex_host, True), (ex_host, True)] (ProcessManager_init True, ex_world))) = 2
   \<and> map (\<lambda>r. r ''status'')
         (processes (fst (run [(ex_host, True), (ex_host, True)] (ProcessManager_init True, ex_world))))
       = [Some (VStr ''sleeping'')]"
proof -
  have calls: "dll_calls (snd (run [(ex_host, True)] (ProcessManager_init True, ex_world))) = 1"
    "dll_calls (snd (run [(ex_host, True), (ex_host, True)] (ProcessManager_init True, ex_world))) = 2"
    by (simp_all add: run_dll_calls ProcessManager_init_def ex_world_def del: run.simps)
  have first: "map (\<lambda>r. r ''status'')
         (processes (fst (run [(ex_host, True)] (ProcessManager_init True, ex_world))))
       = [Some (VStr ''running'')]"
    by (simp add: get_processes_def get_processes_psutil_def get_processes_from_dll_def
        finish_full_def ProcessManager_init_def ProcessCache_init_def ProcessCache_update_def
        merge_record_def psutil_record_def ex_host_def ex_world_def Let_def)
  have second: "map (\<lambda>r. r ''status'')
         (processes (fst (run [(ex_host, True), (ex_host, True)] (ProcessManager_init True, ex_world))))
       = [Some (VStr ''sleeping'')]"
    by (simp add: get_processes_def get_processes_psutil_def get_processes_from_dll_def
        finish_full_def ProcessManager_init_def ProcessCache_init_def ProcessCache_update_def
        merge_record_def psutil_record_def dll_record_def enrich_def psutil_Process_def
        bulk_defaults_def copy_static_def static_fields_def ex_host_def ex_world_def Let_def)
  have d: "dll (ProcessManager_init True)" by (simp add: ProcessManager_init_def)
  have r: "dll_replies ex_world 0 = DllRaises" by (simp add: ex_world_def)
  from d r calls(1) first calls(2) second show ?thesis by (intro conjI)
qed

lemma psutil_record_dom:
  assumes "psutil_record i = Inr r"
  shows "dom r = set manager_fields"
proof (cases "info_memory_info i")
  case None
  with assms show ?thesis by (simp add: psutil_record_def)
next
  case (Some rss)
  with assms have "r = [''pid'' \<mapsto> VInt (info_pid i),
               ''name'' \<mapsto> (case info_name i of Some n \<Rightarrow> VStr n | None \<Rightarrow> VNone),
               ''memory_kb'' \<mapsto> VInt (rss div 1024),
               ''cpu_percent'' \<mapsto> (case info_cpu_percent i of Some x \<Rightarrow> VFloat x | None \<Rightarrow> VNone),
               ''status'' \<mapsto> (case info_status i of Some s \<Rightarrow> VStr s | None \<Rightarrow> VNone),
               ''username'' \<mapsto>
                 VStr (case info_username i of
                         Some u \<Rightarrow> if u = [] then ''N/A'' else u
                       | None \<Rightarrow> ''N/A'')]"
    by (simp add: psutil_record_def)
  then show ?thesis
    by (simp add: manager_fields_def insert_commute)
qed

lemma psutil_records_dom: "r \<in> set (fst (psutil_records is)) \<Longrightarrow> dom r = set manager_fields"
proof (induction "is")
  case Nil
  then show ?case by simp
next
  case (Cons i "is")
  show ?case
  proof (cases "psutil_record i")
    case (Inl e)
    with Cons show ?thesis by (cases e) auto
  next
    case (Inr r')
    with Cons psutil_record_dom[OF Inr] show ?thesis
      by (auto split: prod.splits)
  qed
qed

lemma enrich_dom:
  assumes "enrich h pid = Inr d"
  shows "dom d = {''cpu_percent'', ''status'', ''username''}"
proof -
  from assms obtain cpu st u where
    "d = [''cpu_percent'' \<mapsto> VFloat cpu, ''status'' \<mapsto> VStr st, ''username'' \<mapsto> VStr u]"
    by (auto simp: enrich_def split: sum.splits)
  then show ?thesis by (simp add: insert_commute)
qed

lemma dll_record_dom:
  assumes "dll_record h e = Inr r"
  shows "dom r = set manager_fields"
proof -
  from assms obtain pid name mem where
    e: "e ''pid'' = Some pid" "e ''name'' = Some name" "e ''memory_kb'' = Some mem"
    by (auto simp: dll_record_def split: option.splits)
  define new_proc where "new_proc = bulk_defaults pid name mem"
  have d: "dom new_proc = set manager_fields"
    by (simp add: new_proc_def bulk_defaults_def manager_fields_def insert_commute)
  show ?thesis
  proof (cases "enrich h pid")
    case (Inr u)
    with assms e have "r = new_proc ++ u"
      by (simp add: dll_record_def new_proc_def)
    then have "dom r = dom u \<union> dom new_proc" by simp
    also have "\<dots> = set manager_fields"
      unfolding d enrich_dom[OF Inr] by (auto simp: manager_fields_def)
    finally show ?thesis .
  next
    case (Inl x)
    with assms e have "r = new_proc"
      by (cases x) (simp_all add: dll_record_def new_proc_def)
    with d show ?thesis by simp
  qed
qed

lemma dll_records_dom: "r \<in> set (dll_records h es) \<Longrightarrow> dom r = set manager_fields"
proof (induction es)
  case Nil
  then show ?case by simp
next
  case (Cons e es)
  then show ?case
    by (cases "dll_record h e") (auto dest: dll_record_dom)
qed

lemma copy_static_dom:
  "dom (copy_static cached p) = dom p \<union> (set static_fields \<inter> dom cached)"
  by (auto simp: dom_def copy_static_apply)

lemma merge_record_dom:
  assumes "cache_basic c" and "dom p = set manager_fields"
  shows "dom (merge_record c t pid p) = set manager_fields"
proof (cases "pid \<in> fst ` set (cache_od c) \<and> t - last_update c < 2.0")
  case True
  then obtain r where r: "map_of (cache_od c) pid = Some r"
    by (cases "map_of (cache_od c) pid") (auto simp: map_of_eq_None_iff)
  then have "(pid, r) \<in> set (cache_od c)" by (rule map_of_SomeD)
  with assms(1) have "dom (snd (pid, r)) \<subseteq> set manager_fields"
    unfolding cache_basic_def list_all_iff by blast
  then have "dom r \<subseteq> set manager_fields" by simp
  moreover from True r have "merge_record c t pid p = copy_static r p"
    by (simp add: merge_record_def)
  ultimately show ?thesis using assms(2) by (auto simp: copy_static_dom)
next
  case False
  then have "merge_record c t pid p = p" unfolding merge_record_def by (rule if_not_P)
  with assms(2) show ?thesis by simp
qed

lemma list_all_update:
  "list_all P al \<Longrightarrow> P (k, v) \<Longrightarrow> list_all P (AList.update k v al)"
  by (induction al) auto

lemma loop_basic:
  "update_loop c t nc ps = Inr (nc', out) \<Longrightarrow> cache_basic c
     \<Longrightarrow> \<forall>r\<in>set ps. dom r = set manager_fields
     \<Longrightarrow> list_all (\<lambda>e. dom (snd e) \<subseteq> set manager_fields) nc
     \<Longrightarrow> list_all (\<lambda>e. dom (snd e) \<subseteq> set manager_fields) nc'
         \<and> (\<forall>r\<in>set out. dom r = set manager_fields)"
proof (induction ps arbitrary: nc nc' out)
  case Nil
  then show ?case by simp
next
  case (Cons p ps)
  from Cons.prems(1) obtain k where k: "p ''pid'' = Some k"
    by (cases "p ''pid''") auto
  define p' where "p' = merge_record c t k p"
  define nc1 where "nc1 = AList.update k p' nc"
  have dp': "dom p' = set manager_fields"
    unfolding p'_def using Cons.prems(2,3) by (intro merge_record_dom) auto
  with Cons.prems(4)
  have a1: "list_all (\<lambda>e. dom (snd e) \<subseteq> set manager_fields) nc1"
    unfolding nc1_def by (intro list_all_update) simp_all
  show ?case
  proof (cases "int (length nc1) \<ge> max_size c")
    case True
    with Cons.prems(1) k have "nc' = nc1" "out = p' # ps"
      by (simp_all add: Let_def nc1_def p'_def)
    with a1 dp' Cons.prems(3) show ?thesis by simp
  next
    case False
    with Cons.prems(1) k obtain out' where
      rec: "update_loop c t nc1 ps = Inr (nc', out')" and out: "out = p' # out'"
      by (auto simp: Let_def nc1_def p'_def split: sum.splits)
    from Cons.IH[OF rec Cons.prems(2) _ a1] Cons.prems(3) out dp' show ?thesis by simp
  qed
qed

lemma update_basic:
  assumes "ProcessCache_update c t ps = Inr (c', out)" and "cache_basic c"
    and "\<forall>r\<in>set ps. dom r = set manager_fields"
  shows "cache_basic c' \<and> (\<forall>r\<in>set out. dom r = set manager_fields)"
proof -
  from assms(1) obtain nc where l: "update_loop c t [] ps = Inr (nc, out)"
    and c': "c' = c\<lparr>cache_od := nc, last_update := t\<rparr>"
    by (auto simp: ProcessCache_update_def split: sum.splits)
  from loop_basic[OF l assms(2,3)] c' show ?thesis
    by (simp add: cache_basic_def)
qed

lemma dom_ident: "dom r = set manager_fields \<Longrightarrow> ident r \<noteq> None"
  by (auto simp: ident_def manager_fields_def dom_def)

lemma finish_full_basic:
  assumes "cache_basic (cache m)" and "\<forall>r\<in>set built. dom r = set manager_fields"
  shows "\<exists>out. snd (finish_full h w m built) = Inr out \<and> length out = length built
           \<and> (\<forall>r\<in>set out. dom r = set manager_fields)
           \<and> (\<forall>i<length built. \<forall>f. f \<notin> set static_fields \<longrightarrow> (out ! i) f = (built ! i) f)
           \<and> processes (fst (fst (finish_full h w m built))) = out
           \<and> cache_basic (cache (fst (fst (finish_full h w m built))))"
proof -
  from assms(2) have "\<forall>p\<in>set built. ident p \<noteq> None" by (auto dest: dom_ident)
  from update_total[OF this] obtain c' out where
    u: "ProcessCache_update (cache m) (time_time h 0) built = Inr (c', out)" by blast
  from update_basic[OF u assms] have b: "cache_basic c'" "\<forall>r\<in>set out. dom r = set manager_fields"
    by simp_all
  have len: "length out = length built" using u by (rule update_length)
  have other: "\<forall>i<length built. \<forall>f. f \<notin> set static_fields \<longrightarrow> (out ! i) f = (built ! i) f"
  proof (intro allI impI)
    fix i f assume i: "i < length built" and f: "f \<notin> set static_fields"
    from update_nth[OF u i] f show "(out ! i) f = (built ! i) f"
      by (auto simp: merge_record_other split: if_splits)
  qed
  from u b len other show ?thesis by (simp add: finish_full_def)
qed

subsection \<open>Shared records and invariants\<close>

lemma dynamic_data_dom:
  assumes "dynamic_data h p = Inr d"
  shows "dom d = {''memory_kb'', ''cpu_percent'', ''status''}"
proof -
  from assms obtain rss cpu st where
    "d = [''memory_kb'' \<mapsto> VInt (rss div 1024), ''cpu_percent'' \<mapsto> VFloat cpu,
          ''status'' \<mapsto> VStr st]"
    by (auto simp: dynamic_data_def split: option.splits sum.splits)
  then show ?thesis by (simp add: insert_commute)
qed

lemma dynamic_data_frame:
  assumes "dynamic_data h p = Inr d" and "f \<notin> {''memory_kb'', ''cpu_percent'', ''status''}"
  shows "(p ++ d) f = p f"
proof -
  from assms have "f \<notin> dom d" by (simp add: dynamic_data_dom)
  then show ?thesis by (simp add: map_add_dom_app_simps)
qed

lemma refresh_frame:
  "list_all2 (\<lambda>p q. \<forall>f. f \<notin> {''memory_kb'', ''cpu_percent'', ''status''} \<longrightarrow> q f = p f)
     ps (fst (refresh_dynamic_data h ps))"
proof (induction ps)
  case Nil
  then show ?case by simp
next
  case (Cons p ps)
  obtain rest' e' where r: "refresh_dynamic_data h ps = (rest', e')"
    by (cases "refresh_dynamic_data h ps")
  have same: "list_all2 (\<lambda>p q. \<forall>f. f \<notin> {''memory_kb'', ''cpu_percent'', ''status''} \<longrightarrow> q f = p f) ps ps"
    by (simp add: list_all2_same)
  show ?case
  proof (cases "dynamic_data h p")
    case (Inr d)
    with Cons r dynamic_data_frame[OF Inr] show ?thesis by simp
  next
    case (Inl e)
    with Cons r same show ?thesis by (cases e) simp_all
  qed
qed

text \<open>
  The positions that \<open>cache_positions\<close> gives are those of the records that
  \<open>update_loop\<close> stores: the two loops run in step.
\<close>

lemma refs_mono:
  "list_all2 (\<lambda>e kj. fst e = fst kj \<and> snd kj < length pre \<and> snd e = pre ! snd kj) al bl
     \<Longrightarrow> list_all2 (\<lambda>e kj. fst e = fst kj \<and> snd kj < length (pre @ suffix)
                          \<and> snd e = (pre @ suffix) ! snd kj) al bl"
  by (erule list_all2_mono) (auto simp: nth_append)

lemma update_in_step:
  "list_all2 (\<lambda>e kj. fst e = fst kj \<and> snd kj < length pre \<and> snd e = pre ! snd kj) al bl
     \<Longrightarrow> list_all2 (\<lambda>e kj. fst e = fst kj \<and> snd kj < length (pre @ [v])
                          \<and> snd e = (pre @ [v]) ! snd kj)
           (AList.update k v al) (AList.update k (length pre) bl)"
proof (induction al bl rule: list_all2_induct)
  case Nil
  then show ?case by simp
next
  case (Cons a al b bl)
  have tl: "list_all2 (\<lambda>e kj. fst e = fst kj \<and> snd kj < length (pre @ [v])
                          \<and> snd e = (pre @ [v]) ! snd kj) al bl"
    using Cons.hyps(2) by (rule refs_mono)
  from Cons.hyps(1) have hd: "fst a = fst b \<and> snd b < length (pre @ [v])
      \<and> snd a = (pre @ [v]) ! snd b"
    by (auto simp: nth_append)
  show ?case
  proof (cases "fst a = k")
    case True
    with hd tl show ?thesis by simp
  next
    case False
    with hd Cons.IH show ?thesis by simp
  qed
qed

lemma loop_in_step:
  "update_loop c t nc ps = Inr (nc', out)
     \<Longrightarrow> list_all2 (\<lambda>e kj. fst e = fst kj \<and> snd kj < length pre \<and> snd e = pre ! snd kj) nc refs
     \<Longrightarrow> list_all2 (\<lambda>e kj. fst e = fst kj \<and> snd kj < length (pre @ out)
                          \<and> snd e = (pre @ out) ! snd kj)
           nc' (cache_positions (max_size c) refs (length pre) ps)"
proof (induction ps arbitrary: nc refs pre nc' out)
  case Nil
  then show ?case by simp
next
  case (Cons p rest)
  from Cons.prems(1) obtain k where k: "p ''pid'' = Some k"
    by (cases "p ''pid''") auto
  define p' where "p' = merge_record c t k p"
  define nc1 where "nc1 = AList.update k p' nc"
  define refs1 where "refs1 = AList.update k (length pre) refs"
  have s1: "list_all2 (\<lambda>e kj. fst e = fst kj \<and> snd kj < length (pre @ [p'])
                          \<and> snd e = (pre @ [p']) ! snd kj) nc1 refs1"
    unfolding nc1_def refs1_def using Cons.prems(2) by (rule update_in_step)
  then have len: "length refs1 = length nc1" by (simp add: list_all2_lengthD)
  show ?case
  proof (cases "int (length nc1) \<ge> max_size c")
    case True
    with Cons.prems(1) k have r: "nc' = nc1" "out = p' # rest"
      by (simp_all add: Let_def nc1_def p'_def)
    from True len k have cp: "cache_positions (max_size c) refs (length pre) (p # rest) = refs1"
      by (simp add: Let_def refs1_def)
    from refs_mono[OF s1, of rest] show ?thesis
      unfolding cp r by simp
  next
    case False
    with Cons.prems(1) k obtain out' where
      rec: "update_loop c t nc1 rest = Inr (nc', out')" and out: "out = p' # out'"
      by (auto simp: Let_def nc1_def p'_def split: sum.splits)
    from False len k have cp: "cache_positions (max_size c) refs (length pre) (p # rest)
        = cache_positions (max_size c) refs1 (length (pre @ [p'])) rest"
      by (simp add: Let_def refs1_def)
    from Cons.IH[OF rec s1] show ?thesis
      unfolding cp out by simp
  qed
qed

lemma finish_full_refs: "refs_ok (fst (fst (finish_full h w m built)))"
proof (cases "ProcessCache_update (cache m) (time_time h 0) built")
  case (Inl e)
  then show ?thesis by (simp add: finish_full_def refs_ok_def)
next
  case (Inr r)
  obtain c' out where r: "r = (c', out)" by (cases r)
  from Inr r obtain nc where l: "update_loop (cache m) (time_time h 0) [] built = Inr (nc, out)"
    and c': "c' = (cache m)\<lparr>cache_od := nc, last_update := time_time h 0\<rparr>"
    by (auto simp: ProcessCache_update_def split: sum.splits)
  have "list_all2 (\<lambda>e kj. fst e = fst kj \<and> snd kj < length ([] @ out)
                          \<and> snd e = ([] @ out) ! snd kj)
           nc (cache_positions (max_size (cache m)) [] (length ([]::proc list)) built)"
    using l by (rule loop_in_step) simp
  then have "list_all2 (\<lambda>e j. j < length out \<and> snd e = out ! j)
           nc (map snd (cache_positions (max_size (cache m)) [] 0 built))"
    by (simp add: list_all2_map2) (erule list_all2_mono, simp)
  with Inr r c' show ?thesis by (simp add: finish_full_def refs_ok_def)
qed

lemma sync_keys: "map fst (sync_entries al js ps) = map fst al"
  by (induction al js ps rule: sync_entries.induct) simp_all

lemma sync_in_step:
  "list_all2 (\<lambda>e j. j < length ps \<and> snd e = ps ! j) al js
     \<Longrightarrow> list_all2 F ps ps'
     \<Longrightarrow> list_all2 (\<lambda>e e'. fst e' = fst e \<and> F (snd e) (snd e')) al (sync_entries al js ps')
         \<and> list_all2 (\<lambda>e j. j < length ps' \<and> snd e = ps' ! j) (sync_entries al js ps') js"
proof (induction al js rule: list_all2_induct)
  case Nil
  then show ?case by simp
next
  case (Cons a al j js)
  from Cons.prems have len: "length ps' = length ps" by (simp add: list_all2_lengthD)
  from Cons.hyps(1) Cons.prems have "F (snd a) (ps' ! j)"
    by (auto simp: list_all2_conv_all_nth)
  with Cons len show ?case by simp
qed


text \<open>The invariants \<open>cache_basic\<close> and \<open>refs_ok\<close> hold initially and along every run.\<close>

lemma cache_basic_init: "cache_basic (cache (ProcessManager_init loaded))"
  by (simp add: ProcessManager_init_def ProcessCache_init_def cache_basic_def)

lemma refs_ok_init: "refs_ok (ProcessManager_init loaded)"
  by (simp add: ProcessManager_init_def ProcessCache_init_def refs_ok_def)

lemma quick_refresh_cache:
  assumes "refs_ok m" and "refresh_dynamic_data h (processes m) = (ps', x)"
  shows "list_all2 (\<lambda>e e'. fst e' = fst e
             \<and> (\<forall>f. f \<notin> {''memory_kb'', ''cpu_percent'', ''status''} \<longrightarrow> snd e' f = snd e f))
           (cache_od (cache m)) (cache_od (sync_cache (cache m) (cache_refs m) ps'))
       \<and> refs_ok (m\<lparr>processes := ps', cache := sync_cache (cache m) (cache_refs m) ps'\<rparr>)"
proof (cases "cache_refs m")
  case None
  then show ?thesis
    by (simp add: sync_cache_def refs_ok_def list_all2_same)
next
  case (Some js)
  with assms(1) have a: "list_all2 (\<lambda>e j. j < length (processes m) \<and> snd e = processes m ! j)
      (cache_od (cache m)) js"
    by (simp add: refs_ok_def)
  have b: "list_all2 (\<lambda>p q. \<forall>f. f \<notin> {''memory_kb'', ''cpu_percent'', ''status''} \<longrightarrow> q f = p f)
      (processes m) ps'"
    using refresh_frame[of "processes m" h] assms(2) by simp
  from sync_in_step[OF a b] Some show ?thesis
    by (simp add: sync_cache_def refs_ok_def)
qed

lemma get_processes_psutil_inv:
  assumes "cache_basic (cache m)" and "refs_ok m"
  shows "cache_basic (cache (fst (fst (get_processes_psutil h w m f))))
       \<and> refs_ok (fst (fst (get_processes_psutil h w m f)))"
proof (cases f)
  case False
  obtain ps' x where r: "refresh_dynamic_data h (processes m) = (ps', x)"
    by (cases "refresh_dynamic_data h (processes m)")
  note q0 = quick_refresh_cache[OF assms(2) r]
  note q = q0[THEN conjunct1]
  have "cache_basic (sync_cache (cache m) (cache_refs m) ps')"
    unfolding cache_basic_def list_all_iff
  proof
    fix e' assume "e' \<in> set (cache_od (sync_cache (cache m) (cache_refs m) ps'))"
    then obtain n where n: "n < length (cache_od (sync_cache (cache m) (cache_refs m) ps'))"
      and e': "e' = cache_od (sync_cache (cache m) (cache_refs m) ps') ! n"
      by (auto simp: in_set_conv_nth)
    from n have n': "n < length (cache_od (cache m))"
      using list_all2_lengthD[OF q] by simp
    from list_all2_nthD[OF q n'] e'
    have fr: "\<forall>f. f \<notin> {''memory_kb'', ''cpu_percent'', ''status''}
        \<longrightarrow> snd e' f = snd (cache_od (cache m) ! n) f"
      by simp
    from assms(1) n' have d: "dom (snd (cache_od (cache m) ! n)) \<subseteq> set manager_fields"
      by (simp add: cache_basic_def list_all_iff)
    show "dom (snd e') \<subseteq> set manager_fields"
    proof
      fix f assume f: "f \<in> dom (snd e')"
      show "f \<in> set manager_fields"
      proof (cases "f \<in> {''memory_kb'', ''cpu_percent'', ''status''}")
        case True
        then show ?thesis by (auto simp: manager_fields_def)
      next
        case False
        with fr f have "f \<in> dom (snd (cache_od (cache m) ! n))" by (auto simp: dom_def)
        with d show ?thesis by blast
      qed
    qed
  qed
  with q0 False r show ?thesis
    by (simp add: get_processes_psutil_def)
next
  case True
  obtain built e where pr: "psutil_records (process_iter h) = (built, e)"
    by (cases "psutil_records (process_iter h)")
  have bd: "\<forall>r\<in>set built. dom r = set manager_fields"
    using psutil_records_dom[of _ "process_iter h"] pr by simp
  show ?thesis
  proof (cases e)
    case None
    with True pr finish_full_basic[OF assms(1) bd, of h w] finish_full_refs[of h w m built]
    show ?thesis
      by (auto simp: get_processes_psutil_def)
  next
    case (Some x)
    with True pr assms show ?thesis
      by (simp add: get_processes_psutil_def refs_ok_def)
  qed
qed

lemma get_processes_inv:
  assumes "cache_basic (cache m)" and "refs_ok m"
  shows "cache_basic (cache (fst (fst (get_processes h w m f))))
       \<and> refs_ok (fst (fst (get_processes h w m f)))"
proof (cases "dll m \<and> f \<and> snd (get_processes_from_dll m w) \<noteq> []")
  case True
  obtain w' es where g: "get_processes_from_dll m w = (w', es)"
    by (cases "get_processes_from_dll m w")
  have "\<forall>r\<in>set (dll_records h es). dom r = set manager_fields"
    by (auto dest: dll_records_dom)
  from finish_full_basic[OF assms(1) this, of h w'] finish_full_refs[of h w' m "dll_records h es"]
    True g show ?thesis
    by (auto simp: get_processes_def)
next
  case False
  then show ?thesis
    using get_processes_psutil_inv[OF assms]
    by (auto simp: get_processes_def split: prod.splits)
qed

lemma run_basic:
  "cache_basic (cache m) \<Longrightarrow> refs_ok m
     \<Longrightarrow> cache_basic (cache (fst (run calls (m, w)))) \<and> refs_ok (fst (run calls (m, w)))"
proof (induction calls arbitrary: m w)
  case Nil
  then show ?case by simp
next
  case (Cons a calls)
  obtain h f where a: "a = (h, f)" by (cases a)
  obtain m' w' where s: "fst (get_processes h w m f) = (m', w')"
    by (cases "fst (get_processes h w m f)")
  from get_processes_inv[OF Cons.prems, of h w f] s
  have "cache_basic (cache m')" "refs_ok m'" by simp_all
  from Cons.IH[OF this, of w'] a s show ?case by simp
qed

lemma dom_no_details:
  assumes "dom r = set manager_fields"
  shows "r ''exe'' = None \<and> r ''cwd'' = None \<and> r ''create_time'' = None \<and> r ''num_threads'' = None"
proof -
  have "''exe'' \<notin> dom r" "''cwd'' \<notin> dom r" "''create_time'' \<notin> dom r" "''num_threads'' \<notin> dom r"
    unfolding assms by (simp_all add: manager_fields_def)
  then show ?thesis by (simp add: domIff)
qed

lemma psutil_records_ok:
  "\<forall>i\<in>set is. info_memory_info i \<noteq> None
     \<Longrightarrow> psutil_records is = (map (\<lambda>i. projr (psutil_record i)) is, None)"
proof (induction "is")
  case Nil
  then show ?case by simp
next
  case (Cons i "is")
  then obtain rss where "info_memory_info i = Some rss" by auto
  then obtain r where "psutil_record i = Inr r" by (simp add: psutil_record_def)
  with Cons show ?case by simp
qed

lemma get_processes_fallback:
  assumes "\<not> dll m \<or> dll_replies w (dll_calls w) \<in> {DllRaises, DllNull, DllJson []}"
  shows "get_processes h w m True
           = get_processes_psutil h (if dll m then w\<lparr>dll_calls := Suc (dll_calls w)\<rparr> else w) m True"
proof (cases "dll m")
  case True
  with assms get_processes_no_data[of m w h] show ?thesis by simp
next
  case False
  then show ?thesis by (simp add: get_processes_no_dll)
qed

text \<open>
  Claim C6 (amended). When the bulk backend is unavailable or returns no data, a full
  refresh is the introspection-only enumeration. Every record it returns carries exactly
  the keys pid, name, memory_kb, cpu_percent, status and username: no executable path,
  working directory, creation timestamp or thread count. When the enumeration yields a
  memory reading for every process the refresh returns one record per process, its
  non-static fields as enumerated.
\<close>

theorem C6_introspection_only_refresh:
  assumes "\<not> dll m \<or> dll_replies w (dll_calls w) \<in> {DllRaises, DllNull, DllJson []}"
    and "cache_basic (cache m)"
  shows "get_processes h w m True
           = get_processes_psutil h (if dll m then w\<lparr>dll_calls := Suc (dll_calls w)\<rparr> else w) m True
    \<and> (\<forall>out. snd (get_processes h w m True) = Inr out \<longrightarrow>
          (\<forall>r\<in>set out. dom r = set manager_fields \<and> r ''exe'' = None \<and> r ''cwd'' = None
                         \<and> r ''create_time'' = None \<and> r ''num_threads'' = None))
    \<and> ((\<forall>i\<in>set (process_iter h). info_memory_info i \<noteq> None) \<longrightarrow>
          (\<exists>out. snd (get_processes h w m True) = Inr out
             \<and> length out = length (process_iter h)
             \<and> (\<forall>k<length out. \<forall>f. f \<notin> set static_fields \<longrightarrow>
                   (out ! k) f = projr (psutil_record (process_iter h ! k)) f)))
    \<and> cache_basic (cache (fst (fst (get_processes h w m True))))"
proof -
  define w' where "w' = (if dll m then w\<lparr>dll_calls := Suc (dll_calls w)\<rparr> else w)"
  have fb: "get_processes h w m True = get_processes_psutil h w' m True"
    unfolding w'_def using assms(1) by (rule get_processes_fallback)
  obtain built e where pr: "psutil_records (process_iter h) = (built, e)"
    by (cases "psutil_records (process_iter h)")
  have bd: "\<forall>r\<in>set built. dom r = set manager_fields"
    using psutil_records_dom[of _ "process_iter h"] pr by simp
  from finish_full_basic[OF assms(2) bd, of h w'] obtain out where
    ff: "snd (finish_full h w' m built) = Inr out" "length out = length built"
      "\<forall>r\<in>set out. dom r = set manager_fields"
      "\<forall>i<length built. \<forall>f. f \<notin> set static_fields \<longrightarrow> (out ! i) f = (built ! i) f"
      "cache_basic (cache (fst (fst (finish_full h w' m built))))"
    by blast
  have res: "get_processes_psutil h w' m True
      = (case e of Some x \<Rightarrow> ((m\<lparr>processes := built, cache_refs := None\<rparr>, w'), Inl x)
         | None \<Rightarrow> finish_full h w' m built)"
    by (simp add: get_processes_psutil_def pr)
  have fields: "\<forall>out. snd (get_processes h w m True) = Inr out \<longrightarrow>
          (\<forall>r\<in>set out. dom r = set manager_fields \<and> r ''exe'' = None \<and> r ''cwd'' = None
                         \<and> r ''create_time'' = None \<and> r ''num_threads'' = None)"
  proof (cases e)
    case None
    with fb res ff(1,3) show ?thesis by (auto dest: dom_no_details)
  next
    case (Some x)
    with fb res show ?thesis by simp
  qed
  have returns: "\<exists>out. snd (get_processes h w m True) = Inr out
             \<and> length out = length (process_iter h)
             \<and> (\<forall>k<length out. \<forall>f. f \<notin> set static_fields \<longrightarrow>
                   (out ! k) f = projr (psutil_record (process_iter h ! k)) f)"
    if "\<forall>i\<in>set (process_iter h). info_memory_info i \<noteq> None"
  proof -
    from psutil_records_ok[OF that] pr
    have b: "built = map (\<lambda>i. projr (psutil_record i)) (process_iter h)" and e: "e = None"
      by simp_all
    from fb res e ff(1) have "snd (get_processes h w m True) = Inr out" by simp
    moreover from ff(2) b have "length out = length (process_iter h)" by simp
    moreover from ff(2,4) b have "\<forall>k<length out. \<forall>f. f \<notin> set static_fields \<longrightarrow>
                   (out ! k) f = projr (psutil_record (process_iter h ! k)) f"
      by simp
    ultimately show ?thesis by blast
  qed
  have inv: "cache_basic (cache (fst (fst (get_processes h w m True))))"
  proof (cases e)
    case None
    with fb res ff(5) show ?thesis by simp
  next
    case (Some x)
    with fb res assms(2) show ?thesis by simp
  qed
  from fb fields returns inv show ?thesis
    unfolding w'_def by blast
qed

text \<open>One enumerated process, no DLL: the record returned has the six keys.\<close>

theorem C6_witness:
  "\<not> dll (ProcessManager_init False)
   \<and> cache_basic (cache (ProcessManager_init False))
   \<and> snd (get_processes ex_host ex_world (ProcessManager_init False) True) = Inr [ex_built]
   \<and> dom ex_built = set manager_fields
   \<and> cache_basic (cache (fst (fst (get_processes ex_host ex_world (ProcessManager_init False) True))))"
proof -
  have a: "\<not> dll (ProcessManager_init False) \<or>
      dll_replies ex_world (dll_calls ex_world) \<in> {DllRaises, DllNull, DllJson []}"
    by (simp add: ProcessManager_init_def)
  have b: "cache_basic (cache (ProcessManager_init False))"
    by (simp add: ProcessManager_init_def ProcessCache_init_def cache_basic_def)
  have r: "snd (get_processes ex_host ex_world (ProcessManager_init False) True) = Inr [ex_built]"
    by (simp add: get_processes_def get_processes_psutil_def finish_full_def ProcessManager_init_def
      ProcessCache_init_def ProcessCache_update_def merge_record_def psutil_record_def
      ex_host_def ex_built_def Let_def)
  note t = C6_introspection_only_refresh[OF a b, of ex_host]
  note inv = t[THEN conjunct2, THEN conjunct2, THEN conjunct2]
  from t[THEN conjunct2, THEN conjunct1, rule_format, OF r, of ex_built]
  have d: "dom ex_built = set manager_fields" by simp
  have n: "\<not> dll (ProcessManager_init False)" by (simp add: ProcessManager_init_def)
  from n b r d inv show ?thesis by (intro conjI)
qed

text \<open>
  Claim C6 as stated fails on every record: the one returned here has no executable
  path, working directory, creation timestamp or thread count.
\<close>

theorem C6_counterexample:
  "\<not> dll (ProcessManager_init False)
   \<and> snd (get_processes ex_host ex_world (ProcessManager_init False) True) = Inr [ex_built]
   \<and> ex_built ''exe'' = None \<and> ex_built ''cwd'' = None
   \<and> ex_built ''create_time'' = None \<and> ex_built ''num_threads'' = None"
  by (simp add: get_processes_def get_processes_psutil_def finish_full_def ProcessManager_init_def
      ProcessCache_init_def ProcessCache_update_def merge_record_def psutil_record_def
      ex_host_def ex_built_def Let_def)

subsection \<open>The quick refresh\<close>

lemma sync_cache_frame:
  "max_size (sync_cache c refs ps) = max_size c \<and> last_update (sync_cache c refs ps) = last_update c
   \<and> map fst (cache_od (sync_cache c refs ps)) = map fst (cache_od c)"
  by (cases refs) (simp_all add: sync_cache_def sync_keys)

lemma psutil_Process_iter: "psutil_Process (h\<lparr>process_iter := x\<rparr>) pid = psutil_Process h pid"
  by (simp add: psutil_Process_def cong: val.case_cong option.case_cong)

lemma dynamic_data_iter: "dynamic_data (h\<lparr>process_iter := x\<rparr>) p = dynamic_data h p"
  by (simp add: dynamic_data_def psutil_Process_iter cong: option.case_cong sum.case_cong)

lemma refresh_iter:
  "refresh_dynamic_data (h\<lparr>process_iter := x\<rparr>) ps = refresh_dynamic_data h ps"
  by (induction ps) (simp_all add: dynamic_data_iter cong: sum.case_cong exn.case_cong)

text \<open>
  Claim C7. A quick refresh (\<open>get_processes\<close> with \<open>full_update\<close> false) keeps the
  length of the held list, the identity at every position and every field other than
  memory_kb, cpu_percent and status of every held record; its outcome does not depend on
  what an enumeration of the processes would yield, so it neither adds nor removes a
  record. The cache keeps its keys, its capacity and its generation time; its records are
  objects of the list and change with them, in those three fields only. The DLL handle
  and the world are as they were.
\<close>

theorem C7_quick_refresh_frame:
  "length (processes (fst (fst (get_processes h w m False)))) = length (processes m)
   \<and> (\<forall>i<length (processes m). \<forall>f. f \<notin> {''memory_kb'', ''cpu_percent'', ''status''} \<longrightarrow>
         (processes (fst (fst (get_processes h w m False))) ! i) f = (processes m ! i) f)
   \<and> map ident (processes (fst (fst (get_processes h w m False)))) = map ident (processes m)
   \<and> map fst (cache_od (cache (fst (fst (get_processes h w m False)))))
       = map fst (cache_od (cache m))
   \<and> max_size (cache (fst (fst (get_processes h w m False)))) = max_size (cache m)
   \<and> last_update (cache (fst (fst (get_processes h w m False)))) = last_update (cache m)
   \<and> (refs_ok m \<longrightarrow>
         refs_ok (fst (fst (get_processes h w m False)))
       \<and> (\<forall>n<length (cache_od (cache m)).
             \<forall>f. f \<notin> {''memory_kb'', ''cpu_percent'', ''status''} \<longrightarrow>
               snd (cache_od (cache (fst (fst (get_processes h w m False)))) ! n) f
                 = snd (cache_od (cache m) ! n) f))
   \<and> last_full_update (fst (fst (get_processes h w m False))) = last_full_update m
   \<and> dll (fst (fst (get_processes h w m False))) = dll m
   \<and> cache_refs (fst (fst (get_processes h w m False))) = cache_refs m
   \<and> snd (fst (get_processes h w m False)) = w
   \<and> (\<forall>out. snd (get_processes h w m False) = Inr out \<longrightarrow>
         out = processes (fst (fst (get_processes h w m False))))
   \<and> get_processes (h\<lparr>process_iter := enumerated\<rparr>) w m False = get_processes h w m False"
proof -
  obtain ps' e where r: "refresh_dynamic_data h (processes m) = (ps', e)"
    by (cases "refresh_dynamic_data h (processes m)")
  define c' where "c' = sync_cache (cache m) (cache_refs m) ps'"
  have g: "get_processes h w m False
      = ((m\<lparr>processes := ps', cache := c'\<rparr>, w), case e of None \<Rightarrow> Inr ps' | Some x \<Rightarrow> Inl x)"
    by (simp add: get_processes_def get_processes_psutil_def r c'_def)
  have fr: "list_all2 (\<lambda>p q. \<forall>f. f \<notin> {''memory_kb'', ''cpu_percent'', ''status''} \<longrightarrow> q f = p f)
     (processes m) ps'"
    using refresh_frame[of "processes m" h] r by simp
  have len: "length ps' = length (processes m)"
    using fr by (simp add: list_all2_lengthD)
  have nth: "\<forall>i<length (processes m). \<forall>f. f \<notin> {''memory_kb'', ''cpu_percent'', ''status''} \<longrightarrow>
         (ps' ! i) f = (processes m ! i) f"
    using fr by (simp add: list_all2_conv_all_nth)
  have ids: "map ident ps' = map ident (processes m)"
  proof (rule nth_equalityI)
    show "length (map ident ps') = length (map ident (processes m))" using len by simp
  next
    fix i assume "i < length (map ident ps')"
    with len have i: "i < length (processes m)" by simp
    with nth have "(ps' ! i) ''pid'' = (processes m ! i) ''pid''" by simp
    with i len show "map ident ps' ! i = map ident (processes m) ! i"
      by (simp add: ident_def)
  qed
  have keys: "map fst (cache_od c') = map fst (cache_od (cache m))"
    and ms: "max_size c' = max_size (cache m)" and lu: "last_update c' = last_update (cache m)"
    unfolding c'_def using sync_cache_frame[of "cache m" "cache_refs m" ps'] by simp_all
  have shared: "refs_ok (m\<lparr>processes := ps', cache := c'\<rparr>)
       \<and> (\<forall>n<length (cache_od (cache m)).
             \<forall>f. f \<notin> {''memory_kb'', ''cpu_percent'', ''status''} \<longrightarrow>
               snd (cache_od c' ! n) f = snd (cache_od (cache m) ! n) f)"
    if ok: "refs_ok m"
  proof -
    note q = quick_refresh_cache[OF ok r, folded c'_def]
    have "\<forall>n<length (cache_od (cache m)).
             \<forall>f. f \<notin> {''memory_kb'', ''cpu_percent'', ''status''} \<longrightarrow>
               snd (cache_od c' ! n) f = snd (cache_od (cache m) ! n) f"
    proof (intro allI impI)
      fix n f assume n: "n < length (cache_od (cache m))"
        and f: "f \<notin> {''memory_kb'', ''cpu_percent'', ''status''}"
      from list_all2_nthD[OF q[THEN conjunct1] n] f
      show "snd (cache_od c' ! n) f = snd (cache_od (cache m) ! n) f" by blast
    qed
    with q show ?thesis by blast
  qed
  then have shared': "refs_ok m \<longrightarrow>
         refs_ok (m\<lparr>processes := ps', cache := c'\<rparr>)
       \<and> (\<forall>n<length (cache_od (cache m)).
             \<forall>f. f \<notin> {''memory_kb'', ''cpu_percent'', ''status''} \<longrightarrow>
               snd (cache_od c' ! n) f = snd (cache_od (cache m) ! n) f)"
    by (rule impI)
  have it: "get_processes (h\<lparr>process_iter := enumerated\<rparr>) w m False = get_processes h w m False"
    by (simp add: get_processes_def get_processes_psutil_def refresh_iter)
  have res: "\<forall>out. snd (get_processes h w m False) = Inr out \<longrightarrow> out = ps'"
    unfolding g by (cases e) simp_all
  from len nth ids keys ms lu shared' res it show ?thesis
    unfolding g by simp
qed

text \<open>
  A held record with \<open>exe = /usr/bin/foo\<close> and 2 KB of memory: after the quick refresh
  the path is the same and the memory is the 4 KB the backend reports. After a full and
  a quick refresh the cached record of identity 7 has its name and the new memory.
\<close>

theorem C7_witness:
  "length (processes (fst (fst (get_processes ex_host ex_world ex_manager False)))) = 1
   \<and> (processes (fst (fst (get_processes ex_host ex_world ex_manager False))) ! 0) ''exe''
       = Some (VStr ''/usr/bin/foo'')
   \<and> ex_held ''memory_kb'' = Some (VInt 2)
   \<and> (processes (fst (fst (get_processes ex_host ex_world ex_manager False))) ! 0) ''memory_kb''
       = Some (VInt 4)
   \<and> refs_ok ex_manager
   \<and> refs_ok (fst (fst (get_processes ex_host ex_world ex_manager False)))
   \<and> map (\<lambda>e. (fst e, snd e ''name'', snd e ''memory_kb''))
        (cache_od (cache (fst (run [(ex_host, True)] (ProcessManager_init False, ex_world)))))
       = [(VInt 7, Some (VStr ''init''), Some (VInt 2))]
   \<and> map (\<lambda>e. (fst e, snd e ''name'', snd e ''memory_kb''))
        (cache_od (cache (fst (run [(ex_host, True), (ex_host, False)]
                                   (ProcessManager_init False, ex_world)))))
       = [(VInt 7, Some (VStr ''init''), Some (VInt 4))]"
proof -
  note t = C7_quick_refresh_frame[of ex_host ex_world ex_manager]
  have l: "length (processes ex_manager) = 1" by (simp add: ex_manager_def)
  have i: "0 < length (processes ex_manager)" by (simp add: ex_manager_def)
  have f: "''exe'' \<notin> {''memory_kb'', ''cpu_percent'', ''status''}" by simp
  from t[THEN conjunct1] l
  have a: "length (processes (fst (fst (get_processes ex_host ex_world ex_manager False)))) = 1"
    by simp
  from t[THEN conjunct2, THEN conjunct1, rule_format, OF i f]
  have b: "(processes (fst (fst (get_processes ex_host ex_world ex_manager False))) ! 0) ''exe''
       = Some (VStr ''/usr/bin/foo'')"
    by (simp add: ex_manager_def ex_held_def)
  have c: "ex_held ''memory_kb'' = Some (VInt 2)"
    by (simp add: ex_held_def ex_built_def)
  have d: "(processes (fst (fst (get_processes ex_host ex_world ex_manager False))) ! 0) ''memory_kb''
       = Some (VInt 4)"
    by (simp add: get_processes_def get_processes_psutil_def ex_manager_def ex_held_def ex_built_def
        dynamic_data_def psutil_Process_def ex_host_def)
  have ok: "refs_ok ex_manager"
    by (simp add: refs_ok_def ex_manager_def ProcessCache_init_def)
  from t[THEN conjunct2, THEN conjunct2, THEN conjunct2, THEN conjunct2, THEN conjunct2,
      THEN conjunct2, THEN conjunct1, rule_format, OF ok, THEN conjunct1]
  have ok': "refs_ok (fst (fst (get_processes ex_host ex_world ex_manager False)))" .
  have full: "map (\<lambda>e. (fst e, snd e ''name'', snd e ''memory_kb''))
        (cache_od (cache (fst (run [(ex_host, True)] (ProcessManager_init False, ex_world)))))
       = [(VInt 7, Some (VStr ''init''), Some (VInt 2))]"
    by (simp add: get_processes_def get_processes_psutil_def finish_full_def ProcessManager_init_def
        ProcessCache_init_def ProcessCache_update_def merge_record_def psutil_record_def
        ex_host_def Let_def)
  have quick: "map (\<lambda>e. (fst e, snd e ''name'', snd e ''memory_kb''))
        (cache_od (cache (fst (run [(ex_host, True), (ex_host, False)]
                                   (ProcessManager_init False, ex_world)))))
       = [(VInt 7, Some (VStr ''init''), Some (VInt 4))]"
    by (simp add: get_processes_def get_processes_psutil_def finish_full_def ProcessManager_init_def
        ProcessCache_init_def ProcessCache_update_def merge_record_def psutil_record_def
        dynamic_data_def psutil_Process_def sync_cache_def ex_host_def Let_def)
  from a b c d ok ok' full quick show ?thesis by (intro conjI)
qed


subsection \<open>Failures of single records\<close>














subsection \<open>Termination\<close>

text \<open>
  Claim C9 (amended). \<open>kill_process\<close> asks the introspection backend to terminate the
  identity at most once (exactly once when the process object could be made) and returns
  true exactly when the request succeeds. On failure it shows one error dialog that
  carries the cause and returns false: the calling code receives a value, never an
  exception. It never sends a kill request and leaves the manager as it was.
\<close>

theorem C9_terminate:
  "snd (kill_process h m pid) = Inr (termination_request h pid = None)
   \<and> fst (fst (kill_process h m pid)) = m
   \<and> length (filter is_Terminate (snd (fst (kill_process h m pid)))) \<le> 1
   \<and> (\<forall>i. psutil_Process h pid = Inr i \<longrightarrow>
         filter is_Terminate (snd (fst (kill_process h m pid))) = [Terminate i])
   \<and> \<not> list_ex is_Kill (snd (fst (kill_process h m pid)))
   \<and> filter is_ShowError (snd (fst (kill_process h m pid)))
       = (case termination_request h pid of None \<Rightarrow> [] | Some e \<Rightarrow> [ShowError e])"
  by (auto simp: kill_process_def termination_request_def split: sum.splits option.splits)

text \<open>
  Identity 7 is terminated; terminating identity 8 is denied after one request;
  identity 9 does not exist and no request is sent.
\<close>

theorem C9_witness:
  "kill_process ex_host ex_manager (VInt 7) = ((ex_manager, [Terminate 7]), Inr True)
   \<and> kill_process ex_host ex_manager (VInt 8)
       = ((ex_manager, [Terminate 8, ShowError AccessDenied]), Inr False)
   \<and> kill_process ex_host ex_manager (VInt 9)
       = ((ex_manager, [ShowError NoSuchProcess]), Inr False)
   \<and> psutil_Process ex_host (VInt 8) = Inr 8
   \<and> filter is_Terminate (snd (fst (kill_process ex_host ex_manager (VInt 8)))) = [Terminate 8]"
proof -
  have a: "kill_process ex_host ex_manager (VInt 7) = ((ex_manager, [Terminate 7]), Inr True)"
    and b: "kill_process ex_host ex_manager (VInt 8)
       = ((ex_manager, [Terminate 8, ShowError AccessDenied]), Inr False)"
    and c: "kill_process ex_host ex_manager (VInt 9)
       = ((ex_manager, [ShowError NoSuchProcess]), Inr False)"
    by (simp_all add: kill_process_def psutil_Process_def ex_host_def)
  have p: "psutil_Process ex_host (VInt 8) = Inr 8"
    by (simp add: psutil_Process_def ex_host_def)
  note t = C9_terminate[of ex_host ex_manager "VInt 8"]
  from t[THEN conjunct2, THEN conjunct2, THEN conjunct2, THEN conjunct1, rule_format, OF p]
  have d: "filter is_Terminate (snd (fst (kill_process ex_host ex_manager (VInt 8)))) = [Terminate 8]" .
  from a b c p d show ?thesis by (intro conjI)
qed

text \<open>
  Claim C9 as stated says a failure reaches the caller as an error with its cause. The
  request for identity 8 fails with AccessDenied; the caller receives the value false,
  and the cause goes to the dialog only.
\<close>

theorem C9_counterexample:
  "termination_request ex_host (VInt 8) = Some AccessDenied
   \<and> snd (kill_process ex_host ex_manager (VInt 8)) = Inr False
   \<and> snd (kill_process ex_host ex_manager (VInt 8)) \<noteq> Inl AccessDenied
   \<and> filter is_ShowError (snd (fst (kill_process ex_host ex_manager (VInt 8))))
       = [ShowError AccessDenied]"
  by (simp add: kill_process_def termination_request_def psutil_Process_def ex_host_def)

end
